theory Spec2Isabelle
  imports Main "HOL-Library.Extended_Nat" "HOL-Library.Word"
begin

unbundle bit_operations_syntax

section \<open>LRU-K replacer (lru\_k\_replacer.cpp)\<close>

text \<open>
  Frame ids are \<open>frame_id_t\<close>, a signed 32-bit integer (the scan of \<open>Evict\<close> starts from
  the sentinel \<open>-1\<close>); they are modelled as \<open>int\<close>. The quantities of type \<open>size_t\<close>
  (timestamps, \<open>curr_size_\<close>, \<open>k_\<close>, \<open>replacer_size_\<close>, the cached k-distance) are modelled
  as \<open>nat\<close>. The timestamp grows by one per \<open>RecordAccess\<close> and the size is at most the
  number of tracked frames, so their increments are exact for the first \<open>2 ^ 64\<close>
  accesses; every subtraction is written with its wrap-around, because subtraction on
  \<open>nat\<close> would stop at zero. The frame map is a partial function, and the order in which
  the container enumerates it is an argument of \<open>Evict\<close>. A call that throws leaves the
  replacer as it was: the result is then \<open>Inl\<close> of the error. A member \<open>name_\<close> of the
  source is the field \<open>name\<close> here (\<open>k_\<close> is \<open>replacer_k\<close>).
\<close>

definition SIZE_MAX :: nat where
  "SIZE_MAX = 2 ^ 64 - 1"

definition size_sub :: "nat \<Rightarrow> nat \<Rightarrow> nat" where
  "size_sub a b = (if b \<le> a then a - b else 2 ^ 64 - (b - a))"

definition to_frame_id :: "nat \<Rightarrow> int" where
  \<comment> \<open>\<open>static_cast<frame_id_t>(n)\<close>: the low 32 bits, read as two's complement.\<close>
  "to_frame_id n = (int n + 2 ^ 31) mod 2 ^ 32 - 2 ^ 31"

datatype replacer_error = InvalidFrame | NotEvictable

record Frame =
  history :: "nat list"
  k_distance :: nat
  is_evictable :: bool

record LRUKReplacer =
  frames :: "int \<rightharpoonup> Frame"
  current_timestamp :: nat
  curr_size :: nat
  replacer_size :: nat
  replacer_k :: nat

definition default_Frame :: Frame where
  \<comment> \<open>Modelled from the spec: the header declaring \<open>Frame\<close> is not among the sources; a
      record created by \<open>frames_[frame_id]\<close> has an empty history and is not evictable.\<close>
  "default_Frame = \<lparr>history = [], k_distance = 0, is_evictable = False\<rparr>"

definition LRUKReplacer_new :: "nat \<Rightarrow> nat \<Rightarrow> LRUKReplacer" where
  \<comment> \<open>Modelled from the spec: the in-class initialisers of the header are not among the
      sources; the timestamp and \<open>curr_size_\<close> start at zero and no frame is tracked.\<close>
  "LRUKReplacer_new num_frames k =
     \<lparr>frames = Map.empty, current_timestamp = 0, curr_size = 0,
      replacer_size = num_frames, replacer_k = k\<rparr>"

definition CalcKDistance :: "LRUKReplacer \<Rightarrow> int \<Rightarrow> Frame \<Rightarrow> nat" where
  \<comment> \<open>\<open>std::advance(begin, k_ - 1)\<close> reads position \<open>k_ - 1\<close>, which exists on this branch
      whenever \<open>k_\<close> is positive.\<close>
  "CalcKDistance r frame_id frame =
     (if length (history frame) < replacer_k r then SIZE_MAX
      else size_sub (current_timestamp r) (history frame ! (replacer_k r - 1)))"

definition UpdateKDistance :: "LRUKReplacer \<Rightarrow> int \<Rightarrow> Frame \<Rightarrow> Frame" where
  "UpdateKDistance r frame_id frame = frame\<lparr>k_distance := CalcKDistance r frame_id frame\<rparr>"

definition scan_frame :: "int \<Rightarrow> Frame \<Rightarrow> int \<times> nat \<times> nat \<Rightarrow> int \<times> nat \<times> nat" where
  \<comment> \<open>One iteration of the loop of \<open>Evict\<close> on the triple
      \<open>(victim_id, max_k_distance, earliest_access)\<close>.\<close>
  "scan_frame fid frame s =
     (case s of (victim_id, max_k_distance, earliest_access) \<Rightarrow>
        if \<not> is_evictable frame then s
        else if k_distance frame > max_k_distance \<or>
                (k_distance frame = max_k_distance \<and> history frame \<noteq> [] \<and>
                 hd (history frame) < earliest_access)
        then (fid, k_distance frame,
              if history frame \<noteq> [] then hd (history frame) else earliest_access)
        else s)"

definition scan_frames :: "LRUKReplacer \<Rightarrow> int list \<Rightarrow> int \<times> nat \<times> nat" where
  \<comment> \<open>The whole loop; the list is the order in which the container enumerates its keys.\<close>
  "scan_frames r iteration_order =
     fold (\<lambda>fid s. case frames r fid of None \<Rightarrow> s | Some frame \<Rightarrow> scan_frame fid frame s)
       iteration_order (- 1, 0, current_timestamp r)"

definition Evict :: "int list \<Rightarrow> LRUKReplacer \<Rightarrow> int option \<times> LRUKReplacer" where
  "Evict iteration_order r =
     (if curr_size r = 0 then (None, r)
      else case scan_frames r iteration_order of (victim_id, max_k_distance, earliest_access) \<Rightarrow>
        if victim_id \<noteq> - 1
        then (Some victim_id,
              r\<lparr>frames := (frames r)(victim_id := None),
                curr_size := size_sub (curr_size r) 1\<rparr>)
        else (None, r))"

definition RecordAccess :: "LRUKReplacer \<Rightarrow> int \<Rightarrow> replacer_error + LRUKReplacer" where
  "RecordAccess r frame_id =
     (if frame_id \<ge> to_frame_id (replacer_size r) then Inl InvalidFrame
      else
        let frame = (case frames r frame_id of None \<Rightarrow> default_Frame | Some f \<Rightarrow> f);
            pushed = history frame @ [current_timestamp r];
            kept = (if length pushed > replacer_k r then tl pushed else pushed);
            frame' = UpdateKDistance r frame_id (frame\<lparr>history := kept\<rparr>)
        in Inr (r\<lparr>frames := (frames r)(frame_id \<mapsto> frame'),
                  current_timestamp := current_timestamp r + 1\<rparr>))"

definition SetEvictable :: "LRUKReplacer \<Rightarrow> int \<Rightarrow> bool \<Rightarrow> replacer_error + LRUKReplacer" where
  "SetEvictable r frame_id set_evictable =
     (if frame_id \<ge> to_frame_id (replacer_size r) then Inl InvalidFrame
      else case frames r frame_id of
        None \<Rightarrow> Inr r
      | Some frame \<Rightarrow>
          if is_evictable frame \<noteq> set_evictable
          then Inr (r\<lparr>frames := (frames r)(frame_id \<mapsto> frame\<lparr>is_evictable := set_evictable\<rparr>),
                      curr_size := (if set_evictable then curr_size r + 1
                                     else size_sub (curr_size r) 1)\<rparr>)
          else Inr r)"

definition LRUKReplacer_Remove :: "LRUKReplacer \<Rightarrow> int \<Rightarrow> replacer_error + LRUKReplacer" where
  "LRUKReplacer_Remove r frame_id =
     (case frames r frame_id of
        None \<Rightarrow> Inr r
      | Some frame \<Rightarrow>
          if \<not> is_evictable frame then Inl NotEvictable
          else Inr (r\<lparr>frames := (frames r)(frame_id := None),
                      curr_size := size_sub (curr_size r) 1\<rparr>))"

definition Size :: "LRUKReplacer \<Rightarrow> nat" where
  "Size r = curr_size r"

text \<open>
  The states of a replacer built with a positive \<open>k\<close>: every call that returns normally
  is a step; a call that throws leaves the replacer as it was. \<open>Evict\<close> may enumerate
  the tracked frames in any order.
\<close>

inductive replacer_reachable :: "LRUKReplacer \<Rightarrow> bool" where
  init: "0 < k \<Longrightarrow> replacer_reachable (LRUKReplacer_new num_frames k)"
| record_access: "replacer_reachable r \<Longrightarrow> RecordAccess r fid = Inr r' \<Longrightarrow> replacer_reachable r'"
| set_evictable: "replacer_reachable r \<Longrightarrow> SetEvictable r fid b = Inr r' \<Longrightarrow> replacer_reachable r'"
| evict: "replacer_reachable r \<Longrightarrow> distinct order \<Longrightarrow> set order = dom (frames r) \<Longrightarrow>
          Evict order r = (res, r') \<Longrightarrow> replacer_reachable r'"
| remove: "replacer_reachable r \<Longrightarrow> LRUKReplacer_Remove r fid = Inr r' \<Longrightarrow> replacer_reachable r'"

section \<open>Extendible hash table (extendible\_hash\_table.cpp)\<close>

text \<open>
  The directory is a vector of shared pointers, and several slots may point to one
  bucket. The bucket objects live in a store, \<open>heap\<close>, a list addressed by position; a
  shared pointer is such an address, \<open>std::make_shared\<close> appends to the store, and two
  pointers are equal when the addresses are. \<open>std::hash<K>\<close> is the parameter \<open>h\<close>.
  Depths, sizes, indices and hash values are \<open>nat\<close>; the masks, which the source
  computes in \<open>int\<close>, are those of the source as long as the global depth is below 31
  (\<open>IndexOf_machine_agrees\<close>), and \<open>Insert\<close> has no result beyond.
  A member \<open>name_\<close> of the source is the field \<open>name\<close> here, those of a bucket with
  the prefix \<open>b_\<close>.
\<close>

record ('k, 'v) Bucket =
  b_size :: nat
  b_depth :: nat
  b_list :: "('k \<times> 'v) list"

record ('k, 'v) ExtendibleHashTable =
  global_depth :: nat
  bucket_size :: nat
  num_buckets :: nat
  dir :: "nat list"
  heap :: "('k, 'v) Bucket list"

subsection \<open>Bucket\<close>

definition Bucket_new :: "nat \<Rightarrow> nat \<Rightarrow> ('k, 'v) Bucket" where
  "Bucket_new array_size depth = \<lparr>b_size = array_size, b_depth = depth, b_list = []\<rparr>"

definition IsFull :: "('k, 'v) Bucket \<Rightarrow> bool" where
  \<comment> \<open>Modelled from the spec: the header defining \<open>IsFull\<close> is not among the sources; a
      bucket is full when it holds \<open>size_\<close> pairs.\<close>
  "IsFull b \<longleftrightarrow> length (b_list b) = b_size b"

definition GetDepth :: "('k, 'v) Bucket \<Rightarrow> nat" where
  "GetDepth b = b_depth b"

definition IncrementDepth :: "('k, 'v) Bucket \<Rightarrow> ('k, 'v) Bucket" where
  "IncrementDepth b = b\<lparr>b_depth := b_depth b + 1\<rparr>"

definition GetItems :: "('k, 'v) Bucket \<Rightarrow> ('k \<times> 'v) list" where
  "GetItems b = b_list b"

fun find_item :: "('k \<times> 'v) list \<Rightarrow> 'k \<Rightarrow> 'v option" where
  "find_item [] key = None"
| "find_item (item # rest) key = (if fst item = key then Some (snd item) else find_item rest key)"

fun erase_item :: "('k \<times> 'v) list \<Rightarrow> 'k \<Rightarrow> bool \<times> ('k \<times> 'v) list" where
  "erase_item [] key = (False, [])"
| "erase_item (item # rest) key =
     (if fst item = key then (True, rest)
      else case erase_item rest key of (found, rest') \<Rightarrow> (found, item # rest'))"

fun assign_item :: "('k \<times> 'v) list \<Rightarrow> 'k \<Rightarrow> 'v \<Rightarrow> bool \<times> ('k \<times> 'v) list" where
  \<comment> \<open>The loop that overwrites the value of the first pair with the key.\<close>
  "assign_item [] key val = (False, [])"
| "assign_item (item # rest) key val =
     (if fst item = key then (True, (fst item, val) # rest)
      else case assign_item rest key val of (found, rest') \<Rightarrow> (found, item # rest'))"

definition Bucket_Find :: "('k, 'v) Bucket \<Rightarrow> 'k \<Rightarrow> 'v option" where
  "Bucket_Find b key = find_item (b_list b) key"

definition Bucket_Remove :: "('k, 'v) Bucket \<Rightarrow> 'k \<Rightarrow> bool \<times> ('k, 'v) Bucket" where
  "Bucket_Remove b key =
     (case erase_item (b_list b) key of (found, items) \<Rightarrow> (found, b\<lparr>b_list := items\<rparr>))"

definition Bucket_Insert :: "('k, 'v) Bucket \<Rightarrow> 'k \<Rightarrow> 'v \<Rightarrow> bool \<times> ('k, 'v) Bucket" where
  "Bucket_Insert b key val =
     (if IsFull b then
        (case assign_item (b_list b) key val of (found, items) \<Rightarrow>
           if found then (True, b\<lparr>b_list := items\<rparr>) else (False, b))
      else
        (case assign_item (b_list b) key val of (found, items) \<Rightarrow>
           if found then (True, b\<lparr>b_list := items\<rparr>)
           else (True, b\<lparr>b_list := b_list b @ [(key, val)]\<rparr>)))"

subsection \<open>Table\<close>

definition ExtendibleHashTable_new :: "nat \<Rightarrow> ('k, 'v) ExtendibleHashTable" where
  \<comment> \<open>Modelled from the spec: the in-class initialisers of the header are not among the
      sources; the global depth starts at 0 and the bucket count at 1.\<close>
  "ExtendibleHashTable_new n =
     \<lparr>global_depth = 0, bucket_size = n, num_buckets = 1, dir = [0],
      heap = [Bucket_new n 0]\<rparr>"

definition IndexOf :: "('k \<Rightarrow> nat) \<Rightarrow> ('k, 'v) ExtendibleHashTable \<Rightarrow> 'k \<Rightarrow> nat" where
  "IndexOf h t key = (let mask = push_bit (global_depth t) 1 - 1 in h key AND mask)"

definition GetGlobalDepth :: "('k, 'v) ExtendibleHashTable \<Rightarrow> nat" where
  "GetGlobalDepth t = global_depth t"

definition GetLocalDepth :: "('k, 'v) ExtendibleHashTable \<Rightarrow> nat \<Rightarrow> nat" where
  "GetLocalDepth t dir_index = GetDepth (heap t ! (dir t ! dir_index))"

definition GetNumBuckets :: "('k, 'v) ExtendibleHashTable \<Rightarrow> nat" where
  "GetNumBuckets t = num_buckets t"

definition Find :: "('k \<Rightarrow> nat) \<Rightarrow> ('k, 'v) ExtendibleHashTable \<Rightarrow> 'k \<Rightarrow> 'v option" where
  "Find h t key = (let index = IndexOf h t key in Bucket_Find (heap t ! (dir t ! index)) key)"

definition Remove ::
  "('k \<Rightarrow> nat) \<Rightarrow> ('k, 'v) ExtendibleHashTable \<Rightarrow> 'k \<Rightarrow> bool \<times> ('k, 'v) ExtendibleHashTable" where
  "Remove h t key =
     (let index = IndexOf h t key; target = dir t ! index
      in case Bucket_Remove (heap t ! target) key of
           (found, b) \<Rightarrow> (found, t\<lparr>heap := (heap t)[target := b]\<rparr>))"

definition double_directory :: "('k, 'v) ExtendibleHashTable \<Rightarrow> ('k, 'v) ExtendibleHashTable" where
  \<comment> \<open>\<open>resize(2 * old_size)\<close>, slot \<open>i + old_size\<close> copied from slot \<open>i\<close>, depth incremented.\<close>
  "double_directory t = t\<lparr>dir := dir t @ dir t, global_depth := global_depth t + 1\<rparr>"

definition redirect :: "nat list \<Rightarrow> nat \<Rightarrow> nat \<Rightarrow> nat \<Rightarrow> nat \<Rightarrow> nat list" where
  \<comment> \<open>The loop over the directory: each slot is read and written at its own position only.\<close>
  "redirect d split_mask directory_index target_bucket new_bucket =
     map (\<lambda>i. if (i AND (split_mask - 1)) = directory_index \<and> d ! i = target_bucket
               then (if (i AND split_mask) = 0 then target_bucket else new_bucket)
               else d ! i) [0..<length d]"

fun redistribute ::
  "('k \<Rightarrow> bool) \<Rightarrow> ('k \<times> 'v) list \<Rightarrow> ('k, 'v) Bucket \<Rightarrow> ('k \<times> 'v) list \<times> ('k, 'v) Bucket" where
  \<comment> \<open>The loop over the items of the split bucket; \<open>moves key\<close> is the test
      \<open>dir_[IndexOf(key)] != target_bucket\<close>. Returns the items left and the new bucket.\<close>
  "redistribute moves [] new_bucket = ([], new_bucket)"
| "redistribute moves (item # rest) new_bucket =
     (if moves (fst item)
      then redistribute moves rest (snd (Bucket_Insert new_bucket (fst item) (snd item)))
      else case redistribute moves rest new_bucket of
             (left, new_bucket') \<Rightarrow> (item # left, new_bucket'))"

definition split_pointers ::
  "('k, 'v) ExtendibleHashTable \<Rightarrow> nat \<Rightarrow> nat \<Rightarrow> ('k, 'v) ExtendibleHashTable" where
  \<comment> \<open>"Split the bucket" and "Redistribute directory pointers": the new bucket is
      allocated, the depth of the old one incremented, and the slots re-pointed.\<close>
  "split_pointers t index target_bucket =
     (let local_depth = GetDepth (heap t ! target_bucket);
          new_bucket = length (heap t);
          heap1 = (heap t)[target_bucket := IncrementDepth (heap t ! target_bucket)]
                    @ [Bucket_new (bucket_size t) (local_depth + 1)];
          mask = push_bit local_depth 1;
          directory_index = index AND (mask - 1)
      in t\<lparr>dir := redirect (dir t) mask directory_index target_bucket new_bucket,
            heap := heap1\<rparr>)"

definition split_items ::
  "('k \<Rightarrow> nat) \<Rightarrow> ('k, 'v) ExtendibleHashTable \<Rightarrow> nat \<Rightarrow> nat \<Rightarrow> ('k, 'v) ExtendibleHashTable" where
  \<comment> \<open>"Redistribute items", and the increment of \<open>num_buckets_\<close>.\<close>
  "split_items h t target_bucket new_bucket =
     (case redistribute (\<lambda>key. dir t ! IndexOf h t key \<noteq> target_bucket)
             (GetItems (heap t ! target_bucket)) (heap t ! new_bucket) of
        (left, filled) \<Rightarrow>
          t\<lparr>heap := (heap t)[target_bucket := (heap t ! target_bucket)\<lparr>b_list := left\<rparr>,
                              new_bucket := filled],
            num_buckets := num_buckets t + 1\<rparr>)"

definition Split ::
  "('k \<Rightarrow> nat) \<Rightarrow> ('k, 'v) ExtendibleHashTable \<Rightarrow> nat \<Rightarrow> ('k, 'v) ExtendibleHashTable" where
  \<comment> \<open>One pass through the body of the loop of \<open>Insert\<close> after the bucket refused the
      pair; \<open>index\<close> was computed before the directory doubled.\<close>
  "Split h t index =
     (let target_bucket = dir t ! index;
          t1 = (if GetDepth (heap t ! target_bucket) = global_depth t
                then double_directory t else t);
          new_bucket = length (heap t1)
      in split_items h (split_pointers t1 index target_bucket) target_bucket new_bucket)"

text \<open>
  \<open>IndexOf\<close> computes \<open>(1 << global_depth_) - 1\<close> in \<open>int\<close>. From depth 31 on that
  overflows, and the language leaves the behaviour of the program undefined. The loop of
  \<open>Insert\<close> is the only place where the depth grows, and every pass starts with
  \<open>IndexOf\<close>: a pass that starts at depth 31 or more has no result, like a loop that
  never ends. Every other \<open>int\<close> of the source (the local depths, the bucket count) is
  bounded by the global depth or by the length of the directory.
\<close>

partial_function (option) Insert ::
  "('k \<Rightarrow> nat) \<Rightarrow> ('k, 'v) ExtendibleHashTable \<Rightarrow> 'k \<Rightarrow> 'v \<Rightarrow> ('k, 'v) ExtendibleHashTable option" where
  "Insert h t key val =
     (if 31 \<le> global_depth t then None
      else
        let index = IndexOf h t key; target_bucket = dir t ! index
        in case Bucket_Insert (heap t ! target_bucket) key val of
             (accepted, b) \<Rightarrow>
               if accepted then Some (t\<lparr>heap := (heap t)[target_bucket := b]\<rparr>)
               else Insert h (Split h t index) key val)"

declare Insert.simps [code]

text \<open>
  The states of a table: those a sequence of \<open>Insert\<close> and \<open>Remove\<close> calls that return
  leads to from a new table. \<open>Find\<close> and the getters change nothing. The global depth of
  such a state is at most 30 (\<open>reachable_depth\<close>), so \<open>Find\<close> and \<open>Remove\<close> compute
  their index without overflow.
\<close>

inductive table_reachable :: "('k \<Rightarrow> nat) \<Rightarrow> ('k, 'v) ExtendibleHashTable \<Rightarrow> bool" for h where
  new: "table_reachable h (ExtendibleHashTable_new n)"
| insert: "table_reachable h t \<Longrightarrow> Insert h t key val = Some t' \<Longrightarrow> table_reachable h t'"
| remove: "table_reachable h t \<Longrightarrow> Remove h t key = (found, t') \<Longrightarrow> table_reachable h t'"

section \<open>Properties of the replacer: auxiliary notions\<close>

definition evictable_frames :: "LRUKReplacer \<Rightarrow> int set" where
  "evictable_frames r = {fid. \<exists>frame. frames r fid = Some frame \<and> is_evictable frame}"

definition size_inv :: "LRUKReplacer \<Rightarrow> bool" where
  "size_inv r \<longleftrightarrow> finite (dom (frames r)) \<and> curr_size r = card (evictable_frames r)"

definition backward_k_distance :: "LRUKReplacer \<Rightarrow> Frame \<Rightarrow> enat" where
  "backward_k_distance r frame =
     (if length (history frame) < replacer_k r then \<infinity>
      else enat (current_timestamp r - history frame ! (length (history frame) - replacer_k r)))"

definition history_inv :: "LRUKReplacer \<Rightarrow> bool" where
  "history_inv r \<longleftrightarrow>
     0 < replacer_k r \<and>
     (\<forall>fid frame. frames r fid = Some frame \<longrightarrow>
        history frame \<noteq> [] \<and> length (history frame) \<le> replacer_k r \<and>
        (\<forall>t \<in> set (history frame). t < current_timestamp r) \<and>
        k_distance frame = (if length (history frame) < replacer_k r then SIZE_MAX else 0))"

text \<open>The order in which the scan ranks two frames: by cached distance, then by front.\<close>

definition ranks_below :: "Frame \<Rightarrow> nat \<times> nat \<Rightarrow> bool" where
  "ranks_below g me \<longleftrightarrow>
     k_distance g < fst me \<or> (k_distance g = fst me \<and> snd me \<le> hd (history g))"

definition scan_step :: "(int \<rightharpoonup> Frame) \<Rightarrow> int \<Rightarrow> int \<times> nat \<times> nat \<Rightarrow> int \<times> nat \<times> nat" where
  "scan_step fs fid s = (case fs fid of None \<Rightarrow> s | Some frame \<Rightarrow> scan_frame fid frame s)"

definition after_RecordAccess :: "int \<Rightarrow> LRUKReplacer \<Rightarrow> LRUKReplacer" where
  "after_RecordAccess fid r = (case RecordAccess r fid of Inl e \<Rightarrow> r | Inr r' \<Rightarrow> r')"

definition after_SetEvictable :: "int \<Rightarrow> bool \<Rightarrow> LRUKReplacer \<Rightarrow> LRUKReplacer" where
  "after_SetEvictable fid b r = (case SetEvictable r fid b of Inl e \<Rightarrow> r | Inr r' \<Rightarrow> r')"

definition after_Evict :: "int list \<Rightarrow> LRUKReplacer \<Rightarrow> LRUKReplacer" where
  "after_Evict iteration_order r = snd (Evict iteration_order r)"

definition replacer_S3 :: LRUKReplacer where
  \<comment> \<open>Scenario S3 of the specification: seven frames, \<open>k = 2\<close>, accesses to frames
      1, 2, 3, 4, 5, 6, 1, then frames 1 to 6 marked evictable.\<close>
  "replacer_S3 =
     fold (\<lambda>fid. after_SetEvictable fid True) [1, 2, 3, 4, 5, 6]
       (fold after_RecordAccess [1, 2, 3, 4, 5, 6, 1] (LRUKReplacer_new 7 2))"

section \<open>Properties of the hash table: auxiliary notions\<close>

text \<open>
  The shape of the directory: its length, the bucket count, every slot pointing into the
  store, every bucket pointed to, local depths bounded by the global depth, and two slots
  sharing a bucket exactly when they agree on the low \<open>local depth\<close> bits.
\<close>

definition dir_inv :: "('k, 'v) ExtendibleHashTable \<Rightarrow> bool" where
  "dir_inv t \<longleftrightarrow>
     length (dir t) = 2 ^ global_depth t \<and>
     num_buckets t = length (heap t) \<and>
     (\<forall>i < length (dir t). dir t ! i < length (heap t)) \<and>
     (\<forall>a < length (heap t). \<exists>i < length (dir t). dir t ! i = a) \<and>
     (\<forall>a < length (heap t). b_depth (heap t ! a) \<le> global_depth t) \<and>
     (\<forall>i < length (dir t). \<forall>j < length (dir t).
        (dir t ! j = dir t ! i) =
        (j mod 2 ^ b_depth (heap t ! (dir t ! i)) = i mod 2 ^ b_depth (heap t ! (dir t ! i))))"

text \<open>
  The contents of the buckets: every pair sits in the bucket its key is looked up in, no
  bucket holds a key twice, and no bucket holds more than \<open>bucket_size_\<close> pairs.
\<close>

definition items_inv :: "('k \<Rightarrow> nat) \<Rightarrow> ('k, 'v) ExtendibleHashTable \<Rightarrow> bool" where
  "items_inv h t \<longleftrightarrow>
     (\<forall>a < length (heap t). \<forall>p \<in> set (b_list (heap t ! a)). dir t ! IndexOf h t (fst p) = a) \<and>
     (\<forall>a < length (heap t). distinct (map fst (b_list (heap t ! a)))) \<and>
     (\<forall>a < length (heap t). b_size (heap t ! a) = bucket_size t \<and>
                              length (b_list (heap t ! a)) \<le> bucket_size t)"

definition table_inv :: "('k \<Rightarrow> nat) \<Rightarrow> ('k, 'v) ExtendibleHashTable \<Rightarrow> bool" where
  "table_inv h t \<longleftrightarrow> dir_inv t \<and> items_inv h t"

text \<open>
  A split in closed form: the slots of bucket \<open>a\<close> whose index has bit \<open>local depth\<close> set
  move to a fresh bucket, and so do the pairs whose hash has that bit set.
\<close>

definition split_at ::
  "('k \<Rightarrow> nat) \<Rightarrow> ('k, 'v) ExtendibleHashTable \<Rightarrow> nat \<Rightarrow> ('k, 'v) ExtendibleHashTable" where
  "split_at h t a =
     (let d = b_depth (heap t ! a); fresh = length (heap t)
      in t\<lparr>dir := map (\<lambda>i. if dir t ! i = a \<and> bit i d then fresh else dir t ! i)
                      [0..<length (dir t)],
            heap := (heap t)[a := (heap t ! a)\<lparr>b_depth := d + 1,
                        b_list := filter (\<lambda>p. \<not> bit (h (fst p)) d) (b_list (heap t ! a))\<rparr>]
                    @ [\<lparr>b_size = bucket_size t, b_depth = d + 1,
                        b_list = filter (\<lambda>p. bit (h (fst p)) d) (b_list (heap t ! a))\<rparr>],
            num_buckets := num_buckets t + 1\<rparr>)"

text \<open>
  The index and the split mask as the machine computes them: \<open>1 << depth\<close> is a 32-bit
  \<open>int\<close>, and its conversion to the 64-bit \<open>size_t\<close> extends the sign.
\<close>

definition IndexOf_machine :: "64 word \<Rightarrow> nat \<Rightarrow> 64 word" where
  "IndexOf_machine hash depth =
     (let mask = (push_bit depth 1 - 1 :: 32 word) in hash AND scast mask)"

definition split_mask_machine :: "nat \<Rightarrow> 64 word" where
  "split_mask_machine local_depth = scast (push_bit local_depth 1 :: 32 word)"

text \<open>Sequences of calls, and what a map would answer.\<close>

datatype ('k, 'v) table_op = Op_Insert 'k 'v | Op_Remove 'k

fun run_ops ::
  "('k \<Rightarrow> nat) \<Rightarrow> ('k, 'v) ExtendibleHashTable \<Rightarrow> ('k, 'v) table_op list \<Rightarrow>
   (('k, 'v) ExtendibleHashTable \<times> bool list) option" where
  \<comment> \<open>The table after the calls and the results of the \<open>Remove\<close> calls, in order;
      \<open>None\<close> when an \<open>Insert\<close> does not return.\<close>
  "run_ops h t [] = Some (t, [])"
| "run_ops h t (Op_Insert key val # ops) =
     (case Insert h t key val of None \<Rightarrow> None | Some t' \<Rightarrow> run_ops h t' ops)"
| "run_ops h t (Op_Remove key # ops) =
     (case Remove h t key of (found, t') \<Rightarrow>
        (case run_ops h t' ops of None \<Rightarrow> None
         | Some (t'', results) \<Rightarrow> Some (t'', found # results)))"

fun latest :: "('k, 'v) table_op list \<Rightarrow> 'k \<Rightarrow> 'v option" where
  \<comment> \<open>What the most recent call on the key left, the calls listed latest first.\<close>
  "latest [] key = None"
| "latest (Op_Insert k v # earlier) key = (if k = key then Some v else latest earlier key)"
| "latest (Op_Remove k # earlier) key = (if k = key then None else latest earlier key)"

fun remove_results :: "('k, 'v) table_op list \<Rightarrow> ('k, 'v) table_op list \<Rightarrow> bool list" where
  \<comment> \<open>For each \<open>Remove\<close>, whether its key was present when it was called; the first
      argument lists the calls already made, latest first.\<close>
  "remove_results done [] = []"
| "remove_results done (Op_Insert k v # ops) = remove_results (Op_Insert k v # done) ops"
| "remove_results done (Op_Remove k # ops) =
     (latest done k \<noteq> None) # remove_results (Op_Remove k # done) ops"

definition after_Insert ::
  "('k \<Rightarrow> nat) \<Rightarrow> 'k \<Rightarrow> 'v \<Rightarrow> ('k, 'v) ExtendibleHashTable \<Rightarrow> ('k, 'v) ExtendibleHashTable" where
  "after_Insert h key val t = (case Insert h t key val of None \<Rightarrow> t | Some t' \<Rightarrow> t')"

text \<open>
  The keys that collide with \<open>key\<close> on the low \<open>w\<close> bits of the hash, among the keys of
  the table together with \<open>key\<close>.
\<close>

definition colliding ::
  "('k \<Rightarrow> nat) \<Rightarrow> ('k, 'v) ExtendibleHashTable \<Rightarrow> 'k \<Rightarrow> nat \<Rightarrow> 'k set" where
  "colliding h t key w =
     {k \<in> insert key (dom (Find h t)). h k mod 2 ^ w = h key mod 2 ^ w}"

text \<open>
  The same count along a sequence of calls, read off the calls alone: the keys present
  after the calls \<open>done\<close> (latest first) are those whose most recent call was an
  \<open>Insert\<close>. A sequence is \<open>separable\<close> at width \<open>w\<close> when, at each of its \<open>Insert\<close>
  calls, at most \<open>n\<close> of the keys then present together with the new key agree with the
  new key on the low \<open>w\<close> bits of the hash.
\<close>

fun op_key :: "('k, 'v) table_op \<Rightarrow> 'k" where
  "op_key (Op_Insert k v) = k"
| "op_key (Op_Remove k) = k"

definition present_keys :: "('k, 'v) table_op list \<Rightarrow> 'k list" where
  "present_keys done = filter (\<lambda>k. latest done k \<noteq> None) (remdups (map op_key done))"

definition colliding_keys ::
  "('k \<Rightarrow> nat) \<Rightarrow> ('k, 'v) table_op list \<Rightarrow> 'k \<Rightarrow> nat \<Rightarrow> 'k list" where
  "colliding_keys h done key w =
     filter (\<lambda>k. h k mod 2 ^ w = h key mod 2 ^ w) (remdups (key # present_keys done))"

fun separable ::
  "('k \<Rightarrow> nat) \<Rightarrow> nat \<Rightarrow> nat \<Rightarrow> ('k, 'v) table_op list \<Rightarrow> ('k, 'v) table_op list \<Rightarrow> bool" where
  "separable h n w done [] = True"
| "separable h n w done (Op_Insert k v # ops) =
     (length (colliding_keys h done k w) \<le> n \<and> separable h n w (Op_Insert k v # done) ops)"
| "separable h n w done (Op_Remove k # ops) = separable h n w (Op_Remove k # done) ops"

text \<open>
  Example tables over \<open>nat\<close> keys hashed by the identity: a full bucket of size two; the
  same table after three more inserts (global depth 3, four buckets); and one key in a
  bucket of size one.
\<close>

definition table_A :: "(nat, nat) ExtendibleHashTable" where
  "table_A = after_Insert (\<lambda>k. k) 2 20 (after_Insert (\<lambda>k. k) 1 10 (ExtendibleHashTable_new 2))"

definition table_B :: "(nat, nat) ExtendibleHashTable" where
  "table_B = after_Insert (\<lambda>k. k) 9 90 (after_Insert (\<lambda>k. k) 5 50 (after_Insert (\<lambda>k. k) 3 30 table_A))"

definition table_Z :: "(nat, nat) ExtendibleHashTable" where
  "table_Z = after_Insert (\<lambda>k. k) 0 10 (ExtendibleHashTable_new 1)"

section \<open>The replacer: theorems\<close>

lemma size_sub_1: "0 < n \<Longrightarrow> size_sub n (Suc 0) = n - Suc 0"
  by (simp add: size_sub_def)

lemma evictable_frames_subset: "evictable_frames r \<subseteq> dom (frames r)"
  by (auto simp: evictable_frames_def)

lemma scan_frame_victim:
  "scan_frame fid frame s = s \<or> (fst (scan_frame fid frame s) = fid \<and> is_evictable frame)"
  by (auto simp: scan_frame_def split: prod.splits)

lemma fold_scan_victim:
  "fst (fold (\<lambda>fid s. case fs fid of None \<Rightarrow> s | Some frame \<Rightarrow> scan_frame fid frame s) xs s0) = fst s0
   \<or> (\<exists>frame. fs (fst (fold (\<lambda>fid s. case fs fid of None \<Rightarrow> s | Some frame \<Rightarrow> scan_frame fid frame s) xs s0)) = Some frame \<and> is_evictable frame)"
proof (induction xs arbitrary: s0)
  case Nil
  then show ?case by simp
next
  case (Cons x xs)
  show ?case
  proof (cases "fs x")
    case None
    then show ?thesis using Cons.IH[of s0] by simp
  next
    case (Some frame)
    from scan_frame_victim[of x frame s0] show ?thesis
    proof
      assume "scan_frame x frame s0 = s0"
      then show ?thesis using Cons.IH[of s0] Some by simp
    next
      assume a: "fst (scan_frame x frame s0) = x \<and> is_evictable frame"
      show ?thesis using Cons.IH[of "scan_frame x frame s0"] Some a by auto
    qed
  qed
qed

lemma scan_frames_victim:
  "fst (scan_frames r order) = - 1 \<or> fst (scan_frames r order) \<in> evictable_frames r"
  using fold_scan_victim[of "frames r" order "(- 1, 0, current_timestamp r)"]
  by (auto simp: scan_frames_def evictable_frames_def)

lemma finite_evictable: "size_inv r \<Longrightarrow> finite (evictable_frames r)"
  using evictable_frames_subset[of r] by (auto simp: size_inv_def intro: finite_subset)

lemma evictable_erase:
  "evictable_frames (r\<lparr>frames := (frames r)(fid := None), curr_size := c\<rparr>) = evictable_frames r - {fid}"
  by (auto simp: evictable_frames_def)

lemma size_inv_erase:
  assumes "size_inv r" "fid \<in> evictable_frames r"
  shows "size_inv (r\<lparr>frames := (frames r)(fid := None), curr_size := size_sub (curr_size r) 1\<rparr>)"
proof -
  have fin: "finite (evictable_frames r)" using assms(1) by (rule finite_evictable)
  then have pos: "0 < card (evictable_frames r)" using assms(2) by (auto simp: card_gt_0_iff)
  have "card (evictable_frames r - {fid}) = card (evictable_frames r) - 1"
    using assms(2) fin by simp
  then show ?thesis using assms(1) pos
    by (simp add: size_inv_def evictable_erase size_sub_1)
qed

lemma size_inv_init: "size_inv (LRUKReplacer_new n k)"
  by (simp add: size_inv_def LRUKReplacer_new_def evictable_frames_def)

lemma size_inv_RecordAccess:
  assumes "size_inv r" "RecordAccess r fid = Inr r'"
  shows "size_inv r'"
proof -
  have "evictable_frames r' = evictable_frames r" "dom (frames r') = insert fid (dom (frames r))"
    using assms(2)
    by (auto simp: RecordAccess_def evictable_frames_def Let_def UpdateKDistance_def default_Frame_def
        split: if_splits option.splits)
  moreover have "curr_size r' = curr_size r"
    using assms(2) by (auto simp: RecordAccess_def Let_def split: if_splits)
  ultimately show ?thesis using assms(1) by (simp add: size_inv_def)
qed

lemma size_inv_SetEvictable:
  assumes "size_inv r" "SetEvictable r fid b = Inr r'"
  shows "size_inv r'"
proof (cases "frames r fid")
  case None
  then show ?thesis using assms by (auto simp: SetEvictable_def split: if_splits)
next
  case (Some frame)
  show ?thesis
  proof (cases "is_evictable frame = b")
    case True
    then show ?thesis using assms Some by (auto simp: SetEvictable_def split: if_splits)
  next
    case False
    have fin: "finite (evictable_frames r)" using assms(1) by (rule finite_evictable)
    show ?thesis
    proof (cases b)
      case True
      have r': "r' = r\<lparr>frames := (frames r)(fid \<mapsto> frame\<lparr>is_evictable := True\<rparr>), curr_size := curr_size r + 1\<rparr>"
        using assms(2) Some False True by (auto simp: SetEvictable_def split: if_splits)
      have "evictable_frames r' = insert fid (evictable_frames r)" "fid \<notin> evictable_frames r"
        using Some False True by (auto simp: r' evictable_frames_def)
      moreover have "curr_size r' = curr_size r + 1" "dom (frames r') = dom (frames r)"
        using Some by (auto simp: r')
      ultimately show ?thesis using assms(1) fin by (simp add: size_inv_def)
    next
      case F: False
      have r': "r' = r\<lparr>frames := (frames r)(fid \<mapsto> frame\<lparr>is_evictable := False\<rparr>), curr_size := size_sub (curr_size r) 1\<rparr>"
        using assms(2) Some False F by (auto simp: SetEvictable_def split: if_splits)
      have e: "evictable_frames r' = evictable_frames r - {fid}" and m: "fid \<in> evictable_frames r"
        using Some False F by (auto simp: r' evictable_frames_def)
      have pos: "0 < card (evictable_frames r)" using m fin by (auto simp: card_gt_0_iff)
      have "card (evictable_frames r - {fid}) = card (evictable_frames r) - 1"
        using m fin by simp
      moreover have "curr_size r' = size_sub (curr_size r) 1" "dom (frames r') = dom (frames r)"
        using Some by (auto simp: r')
      ultimately show ?thesis using assms(1) pos by (simp add: size_inv_def e size_sub_1)
    qed
  qed
qed

lemma size_inv_Remove:
  assumes "size_inv r" "LRUKReplacer_Remove r fid = Inr r'"
  shows "size_inv r'"
proof (cases "frames r fid")
  case None
  then show ?thesis using assms by (simp add: LRUKReplacer_Remove_def)
next
  case (Some frame)
  then have "fid \<in> evictable_frames r"
    and "r' = r\<lparr>frames := (frames r)(fid := None), curr_size := size_sub (curr_size r) 1\<rparr>"
    using assms(2) by (auto simp: LRUKReplacer_Remove_def evictable_frames_def split: if_splits)
  then show ?thesis using size_inv_erase[OF assms(1)] by simp
qed

lemma size_inv_Evict:
  assumes "size_inv r" "Evict order r = (res, r')"
  shows "size_inv r'"
proof (cases "curr_size r = 0 \<or> fst (scan_frames r order) = - 1")
  case True
  then have "r' = r" using assms(2) by (auto simp: Evict_def split: prod.splits if_splits)
  then show ?thesis using assms(1) by simp
next
  case False
  then have "fst (scan_frames r order) \<in> evictable_frames r"
    using scan_frames_victim[of r order] by simp
  moreover have "r' = r\<lparr>frames := (frames r)(fst (scan_frames r order) := None), curr_size := size_sub (curr_size r) 1\<rparr>"
    using assms(2) False by (auto simp: Evict_def split: prod.splits if_splits)
  ultimately show ?thesis using size_inv_erase[OF assms(1)] by simp
qed

lemma reachable_size_inv: "replacer_reachable r \<Longrightarrow> size_inv r"
proof (induction rule: replacer_reachable.induct)
  case (init k num_frames)
  show ?case by (rule size_inv_init)
next
  case (record_access r fid r')
  then show ?case by (blast intro: size_inv_RecordAccess)
next
  case (set_evictable r fid b r')
  then show ?case by (blast intro: size_inv_SetEvictable)
next
  case (evict r order res r')
  then show ?case by (blast intro: size_inv_Evict)
next
  case (remove r fid r')
  then show ?case by (blast intro: size_inv_Remove)
qed

text \<open>
  Claim C7 (replacer size): in every state reachable by \<open>RecordAccess\<close>, \<open>SetEvictable\<close>,
  \<open>Evict\<close> and \<open>Remove\<close>, \<open>Size()\<close> is the number of tracked frames whose
  \<open>is_evictable_\<close> flag is set.
\<close>

theorem Size_counts_evictable:
  "replacer_reachable r \<Longrightarrow> Size r = card (evictable_frames r)"
  using reachable_size_inv[of r] by (simp add: size_inv_def Size_def)

lemma history_inv_init: "0 < k \<Longrightarrow> history_inv (LRUKReplacer_new n k)"
  by (simp add: history_inv_def LRUKReplacer_new_def)

lemma size_sub_self: "size_sub a a = 0"
  by (simp add: size_sub_def)

lemma pushed_history:
  fixes h :: "'a list" and t :: 'a and k :: nat
  assumes "0 < k" "length h \<le> k"
  defines "pushed \<equiv> h @ [t]"
  defines "kept \<equiv> (if length pushed > k then tl pushed else pushed)"
  shows "kept \<noteq> []" "length kept \<le> k" "set kept \<subseteq> insert t (set h)"
    "\<not> length kept < k \<Longrightarrow> kept ! (k - 1) = t"
proof -
  show "kept \<noteq> []" using assms(1,2) by (cases h) (auto simp: kept_def pushed_def)
  show "length kept \<le> k" using assms(2) by (auto simp: kept_def pushed_def)
  show "set kept \<subseteq> insert t (set h)"
    by (cases h) (auto simp: kept_def pushed_def)
  assume "\<not> length kept < k"
  then have len: "length kept = k" using \<open>length kept \<le> k\<close> by simp
  have "last kept = t" using assms(1,2) by (cases h) (auto simp: kept_def pushed_def)
  then show "kept ! (k - 1) = t" using len \<open>kept \<noteq> []\<close> by (simp add: last_conv_nth)
qed

lemma history_inv_RecordAccess:
  assumes "history_inv r" "RecordAccess r fid = Inr r'"
  shows "history_inv r'"
proof -
  define frame where "frame = (case frames r fid of None \<Rightarrow> default_Frame | Some f \<Rightarrow> f)"
  define kept where "kept = (if length (history frame @ [current_timestamp r]) > replacer_k r
      then tl (history frame @ [current_timestamp r]) else history frame @ [current_timestamp r])"
  define frame' where "frame' = UpdateKDistance r fid (frame\<lparr>history := kept\<rparr>)"
  have r': "r' = r\<lparr>frames := (frames r)(fid \<mapsto> frame'), current_timestamp := current_timestamp r + 1\<rparr>"
    using assms(2) by (auto simp: RecordAccess_def Let_def frame'_def kept_def frame_def split: if_splits)
  have k: "0 < replacer_k r" using assms(1) by (simp add: history_inv_def)
  have old: "length (history frame) \<le> replacer_k r" "\<forall>t \<in> set (history frame). t < current_timestamp r"
    using assms(1) by (auto simp: frame_def history_inv_def default_Frame_def split: option.splits)
  note ph = pushed_history[OF k old(1), of "current_timestamp r", folded kept_def]
  have h': "history frame' = kept" by (simp add: frame'_def UpdateKDistance_def)
  have kd: "k_distance frame' = (if length kept < replacer_k r then SIZE_MAX else 0)"
    using ph(4) by (auto simp: frame'_def UpdateKDistance_def CalcKDistance_def size_sub_self)
  have new: "history frame' \<noteq> [] \<and> length (history frame') \<le> replacer_k r \<and>
        (\<forall>t \<in> set (history frame'). t < current_timestamp r + 1) \<and>
        k_distance frame' = (if length (history frame') < replacer_k r then SIZE_MAX else 0)"
  proof (intro conjI ballI)
    fix t assume "t \<in> set (history frame')"
    then have "t = current_timestamp r \<or> t \<in> set (history frame)" using ph(3) h' by auto
    then show "t < current_timestamp r + 1" using old(2) by auto
  qed (use ph(1,2) kd h' in auto)
  show ?thesis
    unfolding history_inv_def
  proof (intro conjI allI impI)
    show "0 < replacer_k r'" using k by (simp add: r')
  next
    fix g gr assume g: "frames r' g = Some gr"
    have *: "history gr \<noteq> [] \<and> length (history gr) \<le> replacer_k r \<and>
        (\<forall>t \<in> set (history gr). t < current_timestamp r + 1) \<and>
        k_distance gr = (if length (history gr) < replacer_k r then SIZE_MAX else 0)"
    proof (cases "g = fid")
      case True
      then have "gr = frame'" using g by (simp add: r')
      then show ?thesis using new by simp
    next
      case False
      then have "frames r g = Some gr" using g by (simp add: r')
      then show ?thesis using assms(1) unfolding history_inv_def by fastforce
    qed
    show "history gr \<noteq> []" using * by simp
    show "length (history gr) \<le> replacer_k r'" using * by (simp add: r')
    show "\<forall>t \<in> set (history gr). t < current_timestamp r'" using * by (simp add: r')
    show "k_distance gr = (if length (history gr) < replacer_k r' then SIZE_MAX else 0)"
      using * by (simp add: r')
  qed
qed

lemma history_inv_SetEvictable:
  assumes "history_inv r" "SetEvictable r fid b = Inr r'"
  shows "history_inv r'"
proof (cases "frames r fid")
  case None
  then show ?thesis using assms by (auto simp: SetEvictable_def split: if_splits)
next
  case (Some frame)
  show ?thesis
  proof (cases "is_evictable frame = b")
    case True
    then show ?thesis using assms Some by (auto simp: SetEvictable_def split: if_splits)
  next
    case False
    then have fr: "frames r' = (frames r)(fid \<mapsto> frame\<lparr>is_evictable := b\<rparr>)"
      and same: "replacer_k r' = replacer_k r" "current_timestamp r' = current_timestamp r"
      using assms(2) Some by (auto simp: SetEvictable_def split: if_splits)
    show ?thesis using assms(1) Some unfolding history_inv_def same fr
      by (auto split: if_splits)
  qed
qed

lemma history_inv_erase:
  "history_inv r \<Longrightarrow> history_inv (r\<lparr>frames := (frames r)(fid := None), curr_size := c\<rparr>)"
  unfolding history_inv_def by (auto split: if_splits)

lemma history_inv_Remove:
  assumes "history_inv r" "LRUKReplacer_Remove r fid = Inr r'"
  shows "history_inv r'"
  using assms history_inv_erase[where r = r and fid = fid]
  by (auto simp: LRUKReplacer_Remove_def split: option.splits if_splits)

lemma history_inv_Evict:
  assumes "history_inv r" "Evict order r = (res, r')"
  shows "history_inv r'"
  using assms history_inv_erase[where r = r]
  by (auto simp: Evict_def split: prod.splits if_splits)

lemma reachable_history_inv: "replacer_reachable r \<Longrightarrow> history_inv r"
proof (induction rule: replacer_reachable.induct)
  case (init k num_frames)
  then show ?case by (rule history_inv_init)
next
  case (record_access r fid r')
  then show ?case by (blast intro: history_inv_RecordAccess)
next
  case (set_evictable r fid b r')
  then show ?case by (blast intro: history_inv_SetEvictable)
next
  case (evict r order res r')
  then show ?case by (blast intro: history_inv_Evict)
next
  case (remove r fid r')
  then show ?case by (blast intro: history_inv_Remove)
qed

lemma scan_step_keeps:
  assumes "\<forall>fid frame. fs fid = Some frame \<longrightarrow> history frame \<noteq> []"
    and "fs g = Some gr" "is_evictable gr" "ranks_below gr (snd s)"
  shows "ranks_below gr (snd (scan_step fs x s))"
proof (cases "fs x")
  case None
  then show ?thesis using assms(4) by (simp add: scan_step_def)
next
  case (Some frame)
  obtain v m e where s: "s = (v, m, e)" by (cases s)
  have ne: "history frame \<noteq> []" using assms(1) Some by blast
  show ?thesis using assms(4) Some ne
    by (auto simp: scan_step_def scan_frame_def ranks_below_def s)
qed

lemma scan_step_self:
  assumes "\<forall>fid frame. fs fid = Some frame \<longrightarrow> history frame \<noteq> []"
    and "fs x = Some frame" "is_evictable frame"
  shows "ranks_below frame (snd (scan_step fs x s))"
proof -
  obtain v m e where s: "s = (v, m, e)" by (cases s)
  have ne: "history frame \<noteq> []" using assms(1,2) by blast
  show ?thesis using assms(2,3) ne
    by (auto simp: scan_step_def scan_frame_def ranks_below_def s)
qed

lemma scan_step_victim:
  assumes "\<forall>fid frame. fs fid = Some frame \<longrightarrow> history frame \<noteq> []"
    and "s = s0 \<or> (\<exists>fr. fs (fst s) = Some fr \<and> is_evictable fr \<and> snd s = (k_distance fr, hd (history fr)))"
  shows "scan_step fs x s = s0 \<or> (\<exists>fr. fs (fst (scan_step fs x s)) = Some fr \<and> is_evictable fr \<and>
           snd (scan_step fs x s) = (k_distance fr, hd (history fr)))"
proof (cases "fs x")
  case None
  then show ?thesis using assms(2) by (simp add: scan_step_def)
next
  case (Some frame)
  obtain v m e where s: "s = (v, m, e)" by (cases s)
  have ne: "history frame \<noteq> []" using assms(1) Some by blast
  have "scan_step fs x s = s \<or> (scan_step fs x s = (x, k_distance frame, hd (history frame)) \<and> is_evictable frame)"
    using Some ne by (auto simp: scan_step_def scan_frame_def s)
  then show ?thesis using assms(2) Some by auto
qed

lemma fold_scan_best:
  assumes ne: "\<forall>fid frame. fs fid = Some frame \<longrightarrow> history frame \<noteq> []"
  shows "(\<forall>g gr. P g \<and> fs g = Some gr \<and> is_evictable gr \<longrightarrow> ranks_below gr (snd s)) \<Longrightarrow>
         (s = s0 \<or> (\<exists>fr. fs (fst s) = Some fr \<and> is_evictable fr \<and> snd s = (k_distance fr, hd (history fr)))) \<Longrightarrow>
         (\<forall>g gr. (g \<in> set xs \<or> P g) \<and> fs g = Some gr \<and> is_evictable gr \<longrightarrow>
              ranks_below gr (snd (fold (scan_step fs) xs s))) \<and>
         (fold (scan_step fs) xs s = s0 \<or>
           (\<exists>fr. fs (fst (fold (scan_step fs) xs s)) = Some fr \<and> is_evictable fr \<and>
              snd (fold (scan_step fs) xs s) = (k_distance fr, hd (history fr))))"
proof (induction xs arbitrary: s P)
  case Nil
  then show ?case by simp
next
  case (Cons x xs)
  let ?s = "scan_step fs x s"
  have a: "\<forall>g gr. (P g \<or> g = x) \<and> fs g = Some gr \<and> is_evictable gr \<longrightarrow> ranks_below gr (snd ?s)"
    using Cons.prems(1) scan_step_keeps[OF ne] scan_step_self[OF ne] by blast
  have b: "?s = s0 \<or> (\<exists>fr. fs (fst ?s) = Some fr \<and> is_evictable fr \<and> snd ?s = (k_distance fr, hd (history fr)))"
    using scan_step_victim[OF ne Cons.prems(2)] .
  have "(\<forall>g gr. (g \<in> set xs \<or> (P g \<or> g = x)) \<and> fs g = Some gr \<and> is_evictable gr \<longrightarrow>
              ranks_below gr (snd (fold (scan_step fs) xs ?s))) \<and>
         (fold (scan_step fs) xs ?s = s0 \<or>
           (\<exists>fr. fs (fst (fold (scan_step fs) xs ?s)) = Some fr \<and> is_evictable fr \<and>
              snd (fold (scan_step fs) xs ?s) = (k_distance fr, hd (history fr))))"
    by (rule Cons.IH[where P = "\<lambda>g. P g \<or> g = x"]) (use a b in auto)
  then show ?case by auto
qed

lemma scan_frames_fold: "scan_frames r order = fold (scan_step (frames r)) order (- 1, 0, current_timestamp r)"
  by (simp add: scan_frames_def scan_step_def[abs_def])

lemma scan_frames_best:
  assumes "history_inv r" "fst (scan_frames r order) \<noteq> - 1"
  shows "\<exists>fr. frames r (fst (scan_frames r order)) = Some fr \<and> is_evictable fr \<and>
           (\<forall>g gr. g \<in> set order \<and> frames r g = Some gr \<and> is_evictable gr \<longrightarrow>
              ranks_below gr (k_distance fr, hd (history fr)))"
proof -
  have ne: "\<forall>fid frame. frames r fid = Some frame \<longrightarrow> history frame \<noteq> []"
    using assms(1) by (simp add: history_inv_def)
  let ?s0 = "(- 1 :: int, 0 :: nat, current_timestamp r)"
  have "(\<forall>g gr. (g \<in> set order \<or> False) \<and> frames r g = Some gr \<and> is_evictable gr \<longrightarrow>
              ranks_below gr (snd (fold (scan_step (frames r)) order ?s0))) \<and>
         (fold (scan_step (frames r)) order ?s0 = ?s0 \<or>
           (\<exists>fr. frames r (fst (fold (scan_step (frames r)) order ?s0)) = Some fr \<and> is_evictable fr \<and>
              snd (fold (scan_step (frames r)) order ?s0) = (k_distance fr, hd (history fr))))"
    by (rule fold_scan_best[OF ne, where P = "\<lambda>_. False"]) auto
  then show ?thesis using assms(2) unfolding scan_frames_fold by auto
qed

text \<open>
  Claim C2 (victim selection): when \<open>Evict\<close> returns a frame \<open>f\<close>, that frame is tracked
  and evictable, no evictable frame has a larger backward k-distance (infinite below \<open>k\<close>
  recorded accesses, otherwise the current timestamp minus the k-th most recent access), and
  among the evictable frames with the same k-distance none has a smaller \<open>history[0]\<close>.
  The cached \<open>k_distance_\<close> is only ever \<open>SIZE_MAX\<close> or zero, so among the frames with
  \<open>k\<close> accesses the scan decides by \<open>history.front()\<close> alone, which orders them as the
  backward k-distance does.
\<close>

theorem Evict_selects_victim:
  assumes "replacer_reachable r" "set order = dom (frames r)"
    and "Evict order r = (Some f, r')"
  shows "\<exists>fr. frames r f = Some fr \<and> is_evictable fr \<and>
           (\<forall>g gr. frames r g = Some gr \<and> is_evictable gr \<longrightarrow>
              backward_k_distance r gr \<le> backward_k_distance r fr \<and>
              (backward_k_distance r gr = backward_k_distance r fr \<longrightarrow>
                 history fr ! 0 \<le> history gr ! 0))"
proof -
  have inv: "history_inv r" using assms(1) by (rule reachable_history_inv)
  have f: "f = fst (scan_frames r order)" and ne: "fst (scan_frames r order) \<noteq> - 1"
    using assms(3) by (auto simp: Evict_def split: if_splits prod.splits)
  from scan_frames_best[OF inv ne] obtain fr where fr: "frames r f = Some fr" "is_evictable fr"
    and best: "\<forall>g gr. g \<in> set order \<and> frames r g = Some gr \<and> is_evictable gr \<longrightarrow>
              ranks_below gr (k_distance fr, hd (history fr))"
    unfolding f by blast
  have max_pos: "0 < SIZE_MAX" by (simp add: SIZE_MAX_def)
  have props: "\<And>x xr. frames r x = Some xr \<Longrightarrow>
      history xr \<noteq> [] \<and> length (history xr) \<le> replacer_k r \<and>
      (\<forall>t \<in> set (history xr). t < current_timestamp r) \<and>
      k_distance xr = (if length (history xr) < replacer_k r then SIZE_MAX else 0)"
    using inv unfolding history_inv_def by blast
  have "backward_k_distance r gr \<le> backward_k_distance r fr \<and>
        (backward_k_distance r gr = backward_k_distance r fr \<longrightarrow> history fr ! 0 \<le> history gr ! 0)"
    if g: "frames r g = Some gr" "is_evictable gr" for g gr
  proof -
    have "g \<in> set order" using g(1) assms(2) by auto
    then have rb: "ranks_below gr (k_distance fr, hd (history fr))" using best g by blast
    note pf = props[OF fr(1)] and pg = props[OF g(1)]
    have hdf: "hd (history fr) = history fr ! 0" and hdg: "hd (history gr) = history gr ! 0"
      using pf pg by (simp_all add: hd_conv_nth)
    have ltf: "history fr ! 0 < current_timestamp r" and ltg: "history gr ! 0 < current_timestamp r"
      using pf pg hdf hdg by (metis hd_in_set)+
    show ?thesis
    proof (cases "length (history fr) < replacer_k r")
      case True
      then show ?thesis using rb pf pg max_pos hdf hdg
        by (auto simp: backward_k_distance_def ranks_below_def split: if_splits)
    next
      case False
      then have lf: "length (history fr) = replacer_k r" using pf by simp
      then have "k_distance fr = 0" using pf by simp
      then have kg: "k_distance gr = 0" and le: "history fr ! 0 \<le> history gr ! 0"
        using rb hdf hdg by (auto simp: ranks_below_def)
      then have lg: "length (history gr) = replacer_k r" using pg max_pos by (auto split: if_splits)
      show ?thesis using lf lg le ltf ltg by (simp add: backward_k_distance_def)
    qed
  qed
  then show ?thesis using fr by blast
qed

lemma after_RecordAccess_reachable:
  "replacer_reachable r \<Longrightarrow> replacer_reachable (after_RecordAccess fid r)"
  by (auto simp: after_RecordAccess_def split: sum.splits intro: replacer_reachable.record_access)

lemma after_SetEvictable_reachable:
  "replacer_reachable r \<Longrightarrow> replacer_reachable (after_SetEvictable fid b r)"
  by (auto simp: after_SetEvictable_def split: sum.splits intro: replacer_reachable.set_evictable)

lemmas replacer_eval =
  after_RecordAccess_def after_SetEvictable_def RecordAccess_def SetEvictable_def
  LRUKReplacer_new_def to_frame_id_def default_Frame_def UpdateKDistance_def CalcKDistance_def
  Let_def size_sub_def

lemmas evict_eval = Evict_def scan_frames_def scan_frame_def SIZE_MAX_def

text \<open>
  The size invariant at a reachable state: frames 1 and 2 accessed, frame 1 evictable.
\<close>

theorem Size_counts_evictable_witness:
  "Size (after_SetEvictable 1 True (after_RecordAccess 2 (after_RecordAccess 1 (LRUKReplacer_new 7 2))))
   = card (evictable_frames
        (after_SetEvictable 1 True (after_RecordAccess 2 (after_RecordAccess 1 (LRUKReplacer_new 7 2)))))"
  by (rule Size_counts_evictable)
    (intro after_SetEvictable_reachable after_RecordAccess_reachable replacer_reachable.init, simp)

text \<open>
  Victim selection at a reachable state with \<open>k = 2\<close>: frame 1 accessed twice, frame 2
  once, both evictable; \<open>Evict\<close> returns frame 2.
\<close>

theorem Evict_selects_victim_witness:
  "\<exists>fr. frames (after_SetEvictable 2 True (after_SetEvictable 1 True
              (after_RecordAccess 1 (after_RecordAccess 2 (after_RecordAccess 1 (LRUKReplacer_new 7 2)))))) 2 = Some fr \<and>
     is_evictable fr \<and>
     (\<forall>g gr. frames (after_SetEvictable 2 True (after_SetEvictable 1 True
              (after_RecordAccess 1 (after_RecordAccess 2 (after_RecordAccess 1 (LRUKReplacer_new 7 2)))))) g = Some gr \<and>
          is_evictable gr \<longrightarrow>
        backward_k_distance (after_SetEvictable 2 True (after_SetEvictable 1 True
              (after_RecordAccess 1 (after_RecordAccess 2 (after_RecordAccess 1 (LRUKReplacer_new 7 2)))))) gr
        \<le> backward_k_distance (after_SetEvictable 2 True (after_SetEvictable 1 True
              (after_RecordAccess 1 (after_RecordAccess 2 (after_RecordAccess 1 (LRUKReplacer_new 7 2)))))) fr \<and>
        (backward_k_distance (after_SetEvictable 2 True (after_SetEvictable 1 True
              (after_RecordAccess 1 (after_RecordAccess 2 (after_RecordAccess 1 (LRUKReplacer_new 7 2)))))) gr
         = backward_k_distance (after_SetEvictable 2 True (after_SetEvictable 1 True
              (after_RecordAccess 1 (after_RecordAccess 2 (after_RecordAccess 1 (LRUKReplacer_new 7 2)))))) fr \<longrightarrow>
         history fr ! 0 \<le> history gr ! 0))"
proof -
  let ?r = "after_SetEvictable 2 True (after_SetEvictable 1 True
              (after_RecordAccess 1 (after_RecordAccess 2 (after_RecordAccess 1 (LRUKReplacer_new 7 2)))))"
  have reach: "replacer_reachable ?r"
    by (intro after_SetEvictable_reachable after_RecordAccess_reachable replacer_reachable.init) simp
  have order: "set [1, 2] = dom (frames ?r)"
    by (auto simp: replacer_eval split: if_splits)
  have "fst (Evict [1, 2] ?r) = Some 2"
    by (simp add: replacer_eval evict_eval)
  then have ev: "Evict [1, 2] ?r = (Some 2, snd (Evict [1, 2] ?r))"
    by (metis prod.collapse)
  show ?thesis by (rule Evict_selects_victim[OF reach order ev])
qed

text \<open>
  Claim C8 (frame ids within range): \<open>RecordAccess\<close> rejects only ids at or above
  \<open>replacer_size_\<close>. A negative id passes the check and is tracked: with seven frames,
  \<open>RecordAccess(-1)\<close> returns normally and the frame map then holds the key \<open>-1\<close>.
\<close>

theorem RecordAccess_tracks_negative_frame:
  "replacer_reachable (after_RecordAccess (- 1) (LRUKReplacer_new 7 2)) \<and>
   RecordAccess (LRUKReplacer_new 7 2) (- 1) = Inr (after_RecordAccess (- 1) (LRUKReplacer_new 7 2)) \<and>
   replacer_size (after_RecordAccess (- 1) (LRUKReplacer_new 7 2)) = 7 \<and>
   dom (frames (after_RecordAccess (- 1) (LRUKReplacer_new 7 2))) = {- 1}"
proof -
  have "replacer_reachable (after_RecordAccess (- 1) (LRUKReplacer_new 7 2))"
    by (intro after_RecordAccess_reachable replacer_reachable.init) simp
  then show ?thesis by (simp add: replacer_eval)
qed

text \<open>
  Claim C10 (Evict succeeds when a frame is evictable): the scan starts from the sentinel
  \<open>victim_id = -1\<close>, and a tracked frame with id \<open>-1\<close> cannot be told from it. After
  \<open>RecordAccess(-1)\<close> and \<open>SetEvictable(-1, true)\<close> the size is one, frame \<open>-1\<close> is
  evictable, and \<open>Evict\<close> returns nothing.
\<close>

theorem Evict_fails_on_frame_minus_one:
  "replacer_reachable (after_SetEvictable (- 1) True (after_RecordAccess (- 1) (LRUKReplacer_new 7 2))) \<and>
   SetEvictable (after_RecordAccess (- 1) (LRUKReplacer_new 7 2)) (- 1) True
     = Inr (after_SetEvictable (- 1) True (after_RecordAccess (- 1) (LRUKReplacer_new 7 2))) \<and>
   Size (after_SetEvictable (- 1) True (after_RecordAccess (- 1) (LRUKReplacer_new 7 2))) = 1 \<and>
   evictable_frames (after_SetEvictable (- 1) True (after_RecordAccess (- 1) (LRUKReplacer_new 7 2))) = {- 1} \<and>
   dom (frames (after_SetEvictable (- 1) True (after_RecordAccess (- 1) (LRUKReplacer_new 7 2)))) = {- 1} \<and>
   Evict [- 1] (after_SetEvictable (- 1) True (after_RecordAccess (- 1) (LRUKReplacer_new 7 2)))
     = (None, after_SetEvictable (- 1) True (after_RecordAccess (- 1) (LRUKReplacer_new 7 2)))"
proof -
  have "replacer_reachable (after_SetEvictable (- 1) True (after_RecordAccess (- 1) (LRUKReplacer_new 7 2)))"
    by (intro after_SetEvictable_reachable after_RecordAccess_reachable replacer_reachable.init) simp
  moreover have "evictable_frames (after_SetEvictable (- 1) True (after_RecordAccess (- 1) (LRUKReplacer_new 7 2))) = {- 1}"
    by (auto simp: replacer_eval evictable_frames_def split: if_splits)
  ultimately show ?thesis by (simp add: replacer_eval evict_eval Size_def)
qed

lemma evictable_size_pos:
  assumes "replacer_reachable r" "frames r fid = Some frame" "is_evictable frame"
  shows "0 < curr_size r"
proof -
  have inv: "size_inv r" using assms(1) by (rule reachable_size_inv)
  have "fid \<in> evictable_frames r" using assms(2,3) by (auto simp: evictable_frames_def)
  then have "0 < card (evictable_frames r)"
    using finite_evictable[OF inv] by (auto simp: card_gt_0_iff)
  then show ?thesis using inv by (simp add: size_inv_def)
qed

text \<open>
  Claim C9 (error contract of \<open>Remove\<close>): on an untracked id the call returns normally
  and changes nothing, whatever the id; on a tracked frame that is not evictable it throws
  (the replacer is as before); on a tracked evictable frame it erases that frame's record,
  keeps every other record, and decrements \<open>curr_size_\<close> (which is positive in every
  reachable state, so the decrement does not wrap).
\<close>

theorem Remove_contract:
  "(frames r fid = None \<longrightarrow> LRUKReplacer_Remove r fid = Inr r) \<and>
   (\<forall>frame. frames r fid = Some frame \<and> \<not> is_evictable frame \<longrightarrow>
      LRUKReplacer_Remove r fid = Inl NotEvictable) \<and>
   (\<forall>frame. frames r fid = Some frame \<and> is_evictable frame \<longrightarrow>
      (\<exists>r'. LRUKReplacer_Remove r fid = Inr r' \<and>
         frames r' = (frames r)(fid := None) \<and>
         curr_size r' = size_sub (curr_size r) 1 \<and>
         (replacer_reachable r \<longrightarrow> curr_size r' + 1 = curr_size r) \<and>
         current_timestamp r' = current_timestamp r \<and>
         replacer_size r' = replacer_size r \<and> replacer_k r' = replacer_k r))"
proof (intro conjI allI impI)
  assume "frames r fid = None"
  then show "LRUKReplacer_Remove r fid = Inr r" by (simp add: LRUKReplacer_Remove_def)
next
  fix frame assume "frames r fid = Some frame \<and> \<not> is_evictable frame"
  then show "LRUKReplacer_Remove r fid = Inl NotEvictable" by (simp add: LRUKReplacer_Remove_def)
next
  fix frame assume f: "frames r fid = Some frame \<and> is_evictable frame"
  let ?r' = "r\<lparr>frames := (frames r)(fid := None), curr_size := size_sub (curr_size r) 1\<rparr>"
  have "LRUKReplacer_Remove r fid = Inr ?r'" using f by (simp add: LRUKReplacer_Remove_def)
  moreover have "curr_size ?r' + 1 = curr_size r" if "replacer_reachable r"
  proof -
    have "0 < curr_size r" using that f by (blast intro: evictable_size_pos)
    then show ?thesis by (simp add: size_sub_def)
  qed
  ultimately show "\<exists>r'. LRUKReplacer_Remove r fid = Inr r' \<and>
         frames r' = (frames r)(fid := None) \<and>
         curr_size r' = size_sub (curr_size r) 1 \<and>
         (replacer_reachable r \<longrightarrow> curr_size r' + 1 = curr_size r) \<and>
         current_timestamp r' = current_timestamp r \<and>
         replacer_size r' = replacer_size r \<and> replacer_k r' = replacer_k r"
    by (intro exI[of _ ?r']) simp
qed

text \<open>
  The three cases of \<open>Remove\<close> with seven frames: id 9 untracked, frame 0 tracked and
  pinned, frame 0 tracked and evictable.
\<close>

theorem Remove_contract_witness:
  "LRUKReplacer_Remove (after_RecordAccess 0 (LRUKReplacer_new 7 2)) 9 = Inr (after_RecordAccess 0 (LRUKReplacer_new 7 2)) \<and>
   LRUKReplacer_Remove (after_RecordAccess 0 (LRUKReplacer_new 7 2)) 0 = Inl NotEvictable \<and>
   (\<exists>r'. LRUKReplacer_Remove (after_SetEvictable 0 True (after_RecordAccess 0 (LRUKReplacer_new 7 2))) 0 = Inr r' \<and>
      frames r' 0 = None \<and> curr_size r' = 0)"
proof -
  let ?a = "after_RecordAccess 0 (LRUKReplacer_new 7 2)"
  let ?b = "after_SetEvictable 0 True ?a"
  have a9: "frames ?a 9 = None" by (simp add: replacer_eval)
  have a0: "frames ?a 0 = Some \<lparr>history = [0], k_distance = SIZE_MAX, is_evictable = False\<rparr>
            \<and> \<not> is_evictable \<lparr>history = [0], k_distance = SIZE_MAX, is_evictable = False\<rparr>"
    by (simp add: replacer_eval)
  have b0: "frames ?b 0 = Some \<lparr>history = [0], k_distance = SIZE_MAX, is_evictable = True\<rparr>
            \<and> is_evictable \<lparr>history = [0], k_distance = SIZE_MAX, is_evictable = True\<rparr>"
    by (simp add: replacer_eval)
  have reach: "replacer_reachable ?b"
    by (intro after_SetEvictable_reachable after_RecordAccess_reachable replacer_reachable.init) simp
  have sz: "curr_size ?b = 1" by (simp add: replacer_eval)
  from Remove_contract[of ?a 9] a9 have 1: "LRUKReplacer_Remove ?a 9 = Inr ?a" by blast
  from Remove_contract[of ?a 0] a0 have 2: "LRUKReplacer_Remove ?a 0 = Inl NotEvictable" by blast
  from Remove_contract[of ?b 0] b0 obtain r' where
    "LRUKReplacer_Remove ?b 0 = Inr r'" "frames r' = (frames ?b)(0 := None)"
    "replacer_reachable ?b \<longrightarrow> curr_size r' + 1 = curr_size ?b"
    by blast
  then have 3: "\<exists>r'. LRUKReplacer_Remove ?b 0 = Inr r' \<and> frames r' 0 = None \<and> curr_size r' = 0"
    using sz reach by auto
  show ?thesis using 1 2 3 by blast
qed

text \<open>What the check of \<open>RecordAccess\<close> does establish: the upper bound.\<close>

lemma tracked_below_replacer_size:
  "replacer_reachable r \<Longrightarrow> frames r f = Some frame \<Longrightarrow> f < to_frame_id (replacer_size r)"
proof (induction arbitrary: f frame rule: replacer_reachable.induct)
  case (init k num_frames)
  then show ?case by (simp add: LRUKReplacer_new_def)
next
  case (record_access r fid r')
  then show ?case
    by (auto simp: RecordAccess_def Let_def split: if_splits)
next
  case (set_evictable r fid b r')
  then show ?case
    by (auto simp: SetEvictable_def split: if_splits option.splits)
next
  case (evict r order res r')
  then show ?case
    by (auto simp: Evict_def split: if_splits prod.splits)
next
  case (remove r fid r')
  then show ?case
    by (auto simp: LRUKReplacer_Remove_def split: if_splits option.splits)
qed

text \<open>Without a tracked frame \<open>-1\<close> the scan finds a victim exactly when the size is positive.\<close>

lemma Evict_succeeds_without_minus_one:
  assumes "replacer_reachable r" "set order = dom (frames r)" "frames r (- 1) = None"
  shows "(0 < curr_size r \<longrightarrow> fst (Evict order r) \<noteq> None) \<and>
         (curr_size r = 0 \<longrightarrow> fst (Evict order r) = None)"
proof (intro conjI impI)
  assume "curr_size r = 0"
  then show "fst (Evict order r) = None" by (simp add: Evict_def)
next
  assume pos: "0 < curr_size r"
  have inv: "history_inv r" using assms(1) by (rule reachable_history_inv)
  have sz: "size_inv r" using assms(1) by (rule reachable_size_inv)
  then have "evictable_frames r \<noteq> {}" using pos by (auto simp: size_inv_def)
  then obtain g gr where g: "frames r g = Some gr" "is_evictable gr"
    by (auto simp: evictable_frames_def)
  then have gin: "g \<in> set order" using assms(2) by auto
  have ne: "\<forall>fid frame. frames r fid = Some frame \<longrightarrow> history frame \<noteq> []"
    using inv by (simp add: history_inv_def)
  let ?s0 = "(- 1 :: int, 0 :: nat, current_timestamp r)"
  have best: "(\<forall>g gr. (g \<in> set order \<or> False) \<and> frames r g = Some gr \<and> is_evictable gr \<longrightarrow>
              ranks_below gr (snd (fold (scan_step (frames r)) order ?s0))) \<and>
         (fold (scan_step (frames r)) order ?s0 = ?s0 \<or>
           (\<exists>fr. frames r (fst (fold (scan_step (frames r)) order ?s0)) = Some fr \<and> is_evictable fr \<and>
              snd (fold (scan_step (frames r)) order ?s0) = (k_distance fr, hd (history fr))))"
    by (rule fold_scan_best[OF ne, where P = "\<lambda>_. False"]) auto
  then have rb: "ranks_below gr (snd (scan_frames r order))"
    using g gin unfolding scan_frames_fold by blast
  have "hd (history gr) < current_timestamp r"
    using inv g(1) unfolding history_inv_def by (metis hd_in_set)
  then have "scan_frames r order \<noteq> ?s0" using rb by (auto simp: ranks_below_def)
  then have "\<exists>fr. frames r (fst (scan_frames r order)) = Some fr"
    using best unfolding scan_frames_fold by auto
  then have "fst (scan_frames r order) \<noteq> - 1" using assms(3) by auto
  then show "fst (Evict order r) \<noteq> None" using pos
    by (auto simp: Evict_def split: prod.splits)
qed

subsection \<open>The scenarios of the specification\<close>

text \<open>
  Scenario S3 evicts frames 2, 3, 4, 5, 6, then 1, then nothing, whatever the order of
  enumeration; in S4 the pinned frame 3 is skipped; S5 and S6 are the two errors.
\<close>

lemma scenario_S3:
  "fst (Evict [6, 5, 4, 3, 2, 1] replacer_S3) = Some 2"
  "fst (Evict [1, 3, 4, 5, 6] (after_Evict [6, 5, 4, 3, 2, 1] replacer_S3)) = Some 3"
  "fst (Evict [6, 1, 5, 4]
     (after_Evict [1, 3, 4, 5, 6] (after_Evict [6, 5, 4, 3, 2, 1] replacer_S3))) = Some 4"
  "fst (Evict [1, 5, 6] (after_Evict [6, 1, 5, 4]
     (after_Evict [1, 3, 4, 5, 6] (after_Evict [6, 5, 4, 3, 2, 1] replacer_S3)))) = Some 5"
  "fst (Evict [1, 6] (after_Evict [1, 5, 6] (after_Evict [6, 1, 5, 4]
     (after_Evict [1, 3, 4, 5, 6] (after_Evict [6, 5, 4, 3, 2, 1] replacer_S3))))) = Some 6"
  "fst (Evict [1] (after_Evict [1, 6] (after_Evict [1, 5, 6] (after_Evict [6, 1, 5, 4]
     (after_Evict [1, 3, 4, 5, 6] (after_Evict [6, 5, 4, 3, 2, 1] replacer_S3)))))) = Some 1"
  "fst (Evict [] (after_Evict [1] (after_Evict [1, 6] (after_Evict [1, 5, 6] (after_Evict [6, 1, 5, 4]
     (after_Evict [1, 3, 4, 5, 6] (after_Evict [6, 5, 4, 3, 2, 1] replacer_S3))))))) = None"
  by (simp_all add: replacer_S3_def after_Evict_def replacer_eval evict_eval)

lemma scenario_S4:
  "fst (Evict [1, 2, 3, 4, 5, 6] (after_SetEvictable 3 False replacer_S3)) = Some 2"
  "fst (Evict [1, 3, 4, 5, 6]
     (after_Evict [1, 2, 3, 4, 5, 6] (after_SetEvictable 3 False replacer_S3))) = Some 4"
  by (simp_all add: replacer_S3_def after_Evict_def replacer_eval evict_eval)

lemma scenario_S5:
  "LRUKReplacer_Remove (after_RecordAccess 0 (LRUKReplacer_new 7 2)) 0 = Inl NotEvictable"
  by (simp add: LRUKReplacer_Remove_def replacer_eval)

lemma scenario_S6: "RecordAccess (LRUKReplacer_new 3 2) 5 = Inl InvalidFrame"
  by (simp add: replacer_eval)

section \<open>The hash table: theorems\<close>

subsection \<open>Bits\<close>

lemma and_mask_mod: "(x::nat) AND (push_bit d 1 - 1) = x mod 2 ^ d"
proof -
  have "x AND mask d = take_bit d x" by (simp add: take_bit_eq_mask)
  then show ?thesis by (simp add: mask_eq_exp_minus_1 take_bit_eq_mod)
qed

lemma and_mask_mod': "(x::nat) AND (2 ^ d - Suc 0) = x mod 2 ^ d"
  using and_mask_mod[of x d] by simp

lemma and_bit_zero: "((i::nat) AND push_bit d 1) = 0 \<longleftrightarrow> \<not> bit i d"
  by (simp add: and_exp_eq_0_iff_not_bit)

lemma mod_Suc_pow_iff:
  "(j::nat) mod 2 ^ Suc d = i mod 2 ^ Suc d \<longleftrightarrow> j mod 2 ^ d = i mod 2 ^ d \<and> bit j d = bit i d"
proof -
  have lt: "take_bit d x < 2 ^ d" for x :: nat by simp
  have "take_bit (Suc d) j = take_bit (Suc d) i \<longleftrightarrow> take_bit d j = take_bit d i \<and> bit j d = bit i d"
    using lt[of j] lt[of i]
    by (auto simp: take_bit_Suc_from_most simp del: take_bit_nat_less_exp)
  then show ?thesis by (simp add: take_bit_eq_mod)
qed

lemma mod_mod_pow: "d \<le> g \<Longrightarrow> ((x::nat) mod 2 ^ g) mod 2 ^ d = x mod 2 ^ d"
  by (simp add: mod_mod_cancel le_imp_power_dvd)

lemma bit_mod_pow: "d < g \<Longrightarrow> bit ((x::nat) mod 2 ^ g) d = bit x d"
  by (simp add: bit_take_bit_iff flip: take_bit_eq_mod)

lemma IndexOf_mod: "IndexOf h t key = h key mod 2 ^ global_depth t"
  by (simp add: IndexOf_def and_mask_mod')

text \<open>The loops over the pairs of a bucket.\<close>

lemma find_item_map_of: "find_item xs key = map_of xs key"
  by (induction xs) auto

lemma assign_item_found: "fst (assign_item xs key val) \<longleftrightarrow> key \<in> fst ` set xs"
  by (induction xs) (auto split: prod.splits)

lemma assign_item_keys: "map fst (snd (assign_item xs key val)) = map fst xs"
  by (induction xs) (auto split: prod.splits)

lemma assign_item_map_of:
  "key \<in> fst ` set xs \<Longrightarrow> map_of (snd (assign_item xs key val)) = (map_of xs)(key \<mapsto> val)"
proof (induction xs)
  case Nil
  then show ?case by simp
next
  case (Cons item rest)
  show ?case
  proof (cases "fst item = key")
    case True
    then show ?thesis by (cases item) auto
  next
    case False
    then have "key \<in> fst ` set rest" using Cons.prems by auto
    then have "map_of (snd (assign_item rest key val)) = (map_of rest)(key \<mapsto> val)"
      by (rule Cons.IH)
    then show ?thesis using False
      by (cases item) (auto split: prod.splits simp: fun_upd_twist)
  qed
qed

lemma erase_item_found: "fst (erase_item xs key) \<longleftrightarrow> key \<in> fst ` set xs"
  by (induction xs) (auto split: prod.splits)

lemma erase_item_filter:
  "distinct (map fst xs) \<Longrightarrow> snd (erase_item xs key) = filter (\<lambda>p. fst p \<noteq> key) xs"
proof (induction xs)
  case Nil
  then show ?case by simp
next
  case (Cons item rest)
  have "\<forall>p \<in> set rest. fst p \<noteq> fst item"
    using Cons.prems by (auto simp: image_iff)
  then have "filter (\<lambda>p. fst p \<noteq> fst item) rest = rest"
    by (rule filter_True)
  then show ?case using Cons by (auto split: prod.splits)
qed

lemma map_of_filter_key:
  "map_of (filter (\<lambda>p. P (fst p)) xs) key = (if P key then map_of xs key else None)"
  by (induction xs) auto

lemma distinct_filter_keys: "distinct (map fst xs) \<Longrightarrow> distinct (map fst (filter P xs))"
  by (simp add: distinct_map_filter)

subsection \<open>The masks in machine arithmetic\<close>

lemma sint_shift:
  assumes d: "d < 31" shows "sint (push_bit d 1 :: 32 word) = 2 ^ d"
proof -
  have lt: "(2::int) ^ d < 2 ^ 31" using d by (intro power_strict_increasing) simp_all
  have "sint (push_bit d 1 :: 32 word) = signed_take_bit (LENGTH(32) - Suc 0) (push_bit d (sint (1 :: 32 word)))"
    by (rule signed_push_bit_eq)
  also have "\<dots> = signed_take_bit 31 (2 ^ d)" by simp
  also have "\<dots> = 2 ^ d"
  proof (rule signed_take_bit_int_eq_self)
    have "- (2 ^ 31) \<le> (0::int)" "(0::int) \<le> 2 ^ d" by simp_all
    then show "- (2 ^ 31) \<le> (2::int) ^ d" by (rule order_trans)
    show "(2::int) ^ d < 2 ^ 31" by (rule lt)
  qed
  finally show ?thesis .
qed

lemma unat_shift:
  assumes d: "d < 64" shows "unat (push_bit d 1 :: 64 word) = 2 ^ d"
proof -
  have lt: "(2::nat) ^ d < 2 ^ 64" using d by (intro power_strict_increasing) simp_all
  have "unat (push_bit d 1 :: 64 word) = take_bit LENGTH(64) (push_bit d (unat (1 :: 64 word)))"
    by (rule unsigned_push_bit_eq)
  also have "\<dots> = take_bit 64 (2 ^ d)" by simp
  also have "\<dots> = 2 ^ d"
    by (rule take_bit_nat_eq_self) (use lt in simp)
  finally show ?thesis .
qed

lemma scast_shift:
  assumes d: "d < 31" shows "(scast (push_bit d 1 :: 32 word) :: 64 word) = push_bit d 1"
proof -
  have "(scast (push_bit d 1 :: 32 word) :: 64 word) = word_of_int (sint (push_bit d 1 :: 32 word))"
    by (rule scast_eq)
  also have "\<dots> = word_of_int (2 ^ d)" by (simp only: sint_shift[OF d])
  also have "\<dots> = push_bit d 1" by (simp add: word_of_int_2p)
  finally show ?thesis .
qed

lemma scast_int_mask:
  assumes d: "d < 31" shows "(scast (push_bit d 1 - 1 :: 32 word) :: 64 word) = mask d"
proof -
  have "(push_bit d 1 - 1 :: 32 word) = mask d" by (simp add: mask_eq_exp_minus_1)
  moreover have "(scast (mask d :: 32 word) :: 64 word) = mask d"
    using d by (intro bit_eqI) (auto simp: bit_signed_iff bit_mask_iff min_def)
  ultimately show ?thesis by simp
qed

lemma unat_and_mask: "unat ((w :: 64 word) AND mask d) = unat w mod 2 ^ d"
proof -
  have "unat (w AND mask d) = unat (take_bit d w)" by (simp only: take_bit_eq_mask)
  also have "\<dots> = take_bit d (unat w)" by (rule unsigned_take_bit_eq)
  also have "\<dots> = unat w mod 2 ^ d" by (rule take_bit_eq_mod)
  finally show ?thesis .
qed

text \<open>
  Below depth 31 the machine's index and split mask are those of the model: the \<open>int\<close>
  shift does not overflow and the sign extension adds nothing.
\<close>

lemma IndexOf_machine_agrees:
  assumes "global_depth t < 31" "h key = unat hash"
  shows "unat (IndexOf_machine hash (global_depth t)) = IndexOf h t key"
proof -
  have "IndexOf_machine hash (global_depth t) = hash AND mask (global_depth t)"
    using assms(1) by (simp only: IndexOf_machine_def Let_def scast_int_mask)
  then show ?thesis using assms(2) by (simp add: unat_and_mask IndexOf_mod)
qed

lemma split_mask_machine_agrees:
  assumes "local_depth < 31"
  shows "unat (split_mask_machine local_depth) = push_bit local_depth 1"
proof -
  have "split_mask_machine local_depth = push_bit local_depth 1"
    using assms by (simp only: split_mask_machine_def scast_shift)
  then show ?thesis using assms unat_shift[of local_depth] by simp
qed

subsection \<open>Bucket operations\<close>

lemma Bucket_Insert_accepts:
  "fst (Bucket_Insert b key val) \<longleftrightarrow> key \<in> fst ` set (b_list b) \<or> \<not> IsFull b"
  by (auto simp: Bucket_Insert_def assign_item_found split: prod.splits)
    (metis assign_item_found fst_conv image_eqI)+

lemma Bucket_Insert_refused:
  "\<not> fst (Bucket_Insert b key val) \<Longrightarrow> snd (Bucket_Insert b key val) = b"
  by (auto simp: Bucket_Insert_def split: prod.splits if_splits)

lemma Bucket_Insert_fields:
  "b_size (snd (Bucket_Insert b key val)) = b_size b"
  "b_depth (snd (Bucket_Insert b key val)) = b_depth b"
  by (auto simp: Bucket_Insert_def split: prod.splits)

lemma Bucket_Insert_list:
  "b_list (snd (Bucket_Insert b key val)) =
     (if key \<in> fst ` set (b_list b) then snd (assign_item (b_list b) key val)
      else if IsFull b then b_list b else b_list b @ [(key, val)])"
  using assign_item_found[of "b_list b" key val]
  by (auto simp: Bucket_Insert_def split: prod.splits)

lemma map_of_snoc:
  "key \<notin> fst ` set xs \<Longrightarrow> map_of (xs @ [(key, val)]) = (map_of xs)(key \<mapsto> val)"
proof (induction xs)
  case Nil
  then show ?case by simp
next
  case (Cons item rest)
  then have "fst item \<noteq> key" by auto
  then show ?case using Cons by (cases item) (auto simp: fun_upd_twist)
qed

lemma Bucket_Insert_map_of:
  "fst (Bucket_Insert b key val) \<Longrightarrow>
   map_of (b_list (snd (Bucket_Insert b key val))) = (map_of (b_list b))(key \<mapsto> val)"
  by (auto simp: Bucket_Insert_list Bucket_Insert_accepts assign_item_map_of map_of_snoc
      simp del: map_of_append)

lemma Bucket_Insert_keys:
  "fst (Bucket_Insert b key val) \<Longrightarrow>
   fst ` set (b_list (snd (Bucket_Insert b key val))) = insert key (fst ` set (b_list b))"
proof -
  have "set (map fst (snd (assign_item (b_list b) key val))) = set (map fst (b_list b))"
    by (simp only: assign_item_keys)
  then show "fst (Bucket_Insert b key val) \<Longrightarrow> ?thesis"
    by (auto simp: Bucket_Insert_list Bucket_Insert_accepts)
qed

lemma Bucket_Insert_distinct:
  "distinct (map fst (b_list b)) \<Longrightarrow> distinct (map fst (b_list (snd (Bucket_Insert b key val))))"
  by (auto simp: Bucket_Insert_list assign_item_keys)

lemma Bucket_Insert_length:
  "length (b_list b) \<le> b_size b \<Longrightarrow> length (b_list (snd (Bucket_Insert b key val))) \<le> b_size b"
proof -
  have "length (map fst (snd (assign_item (b_list b) key val))) = length (map fst (b_list b))"
    by (simp only: assign_item_keys)
  then show "length (b_list b) \<le> b_size b \<Longrightarrow> ?thesis"
    by (auto simp: Bucket_Insert_list IsFull_def)
qed

lemma Bucket_Remove_fields:
  "b_size (snd (Bucket_Remove b key)) = b_size b"
  "b_depth (snd (Bucket_Remove b key)) = b_depth b"
  "fst (Bucket_Remove b key) \<longleftrightarrow> key \<in> fst ` set (b_list b)"
  using erase_item_found[of "b_list b" key]
  by (auto simp: Bucket_Remove_def split: prod.splits)

lemma Bucket_Remove_list:
  "distinct (map fst (b_list b)) \<Longrightarrow>
   b_list (snd (Bucket_Remove b key)) = filter (\<lambda>p. fst p \<noteq> key) (b_list b)"
  using erase_item_filter[of "b_list b" key]
  by (auto simp: Bucket_Remove_def split: prod.splits)

lemma redistribute_filter:
  "distinct (map fst (b_list nb @ items)) \<Longrightarrow>
   length (b_list nb) + length (filter (\<lambda>p. moves (fst p)) items) \<le> b_size nb \<Longrightarrow>
   redistribute moves items nb =
     (filter (\<lambda>p. \<not> moves (fst p)) items,
      nb\<lparr>b_list := b_list nb @ filter (\<lambda>p. moves (fst p)) items\<rparr>)"
proof (induction items arbitrary: nb)
  case Nil
  then show ?case by simp
next
  case (Cons item rest)
  show ?case
  proof (cases "moves (fst item)")
    case False
    have "redistribute moves rest nb =
      (filter (\<lambda>p. \<not> moves (fst p)) rest, nb\<lparr>b_list := b_list nb @ filter (\<lambda>p. moves (fst p)) rest\<rparr>)"
      using Cons.prems False by (intro Cons.IH) auto
    then show ?thesis using False by simp
  next
    case True
    let ?nb = "snd (Bucket_Insert nb (fst item) (snd item))"
    have notin: "fst item \<notin> fst ` set (b_list nb)" using Cons.prems(1) by auto
    have notfull: "\<not> IsFull nb" using Cons.prems(2) True by (auto simp: IsFull_def)
    have l: "b_list ?nb = b_list nb @ [item]"
      using notin notfull by (simp add: Bucket_Insert_list)
    have eq: "?nb = nb\<lparr>b_list := b_list nb @ [item]\<rparr>"
      using notin notfull assign_item_found[of "b_list nb" "fst item" "snd item"]
      by (auto simp: Bucket_Insert_def split: prod.splits)
    have "redistribute moves rest ?nb =
      (filter (\<lambda>p. \<not> moves (fst p)) rest, ?nb\<lparr>b_list := b_list ?nb @ filter (\<lambda>p. moves (fst p)) rest\<rparr>)"
      using Cons.prems True by (intro Cons.IH) (auto simp: l Bucket_Insert_fields)
    then show ?thesis using True by (simp add: eq)
  qed
qed

subsection \<open>Invariants under an accepted insert and under remove\<close>

lemma Find_map_of:
  "Find h t key = map_of (b_list (heap t ! (dir t ! IndexOf h t key))) key"
  by (simp add: Find_def Bucket_Find_def find_item_map_of)

lemma IndexOf_less: "length (dir t) = 2 ^ global_depth t \<Longrightarrow> IndexOf h t key < length (dir t)"
  by (simp add: IndexOf_mod)

lemma dir_invD:
  assumes "dir_inv t"
  shows "length (dir t) = 2 ^ global_depth t"
    and "num_buckets t = length (heap t)"
    and "\<And>i. i < length (dir t) \<Longrightarrow> dir t ! i < length (heap t)"
    and "\<And>a. a < length (heap t) \<Longrightarrow> \<exists>i < length (dir t). dir t ! i = a"
    and "\<And>a. a < length (heap t) \<Longrightarrow> b_depth (heap t ! a) \<le> global_depth t"
    and "\<And>i j. i < length (dir t) \<Longrightarrow> j < length (dir t) \<Longrightarrow>
        (dir t ! j = dir t ! i) =
        (j mod 2 ^ b_depth (heap t ! (dir t ! i)) = i mod 2 ^ b_depth (heap t ! (dir t ! i)))"
  using assms unfolding dir_inv_def by blast+

lemma items_invD:
  assumes "items_inv h t"
  shows "\<And>a p. a < length (heap t) \<Longrightarrow> p \<in> set (b_list (heap t ! a)) \<Longrightarrow> dir t ! IndexOf h t (fst p) = a"
    and "\<And>a. a < length (heap t) \<Longrightarrow> distinct (map fst (b_list (heap t ! a)))"
    and "\<And>a. a < length (heap t) \<Longrightarrow> b_size (heap t ! a) = bucket_size t"
    and "\<And>a. a < length (heap t) \<Longrightarrow> length (b_list (heap t ! a)) \<le> bucket_size t"
  using assms unfolding items_inv_def by blast+

lemma target_in_heap:
  "dir_inv t \<Longrightarrow> dir t ! IndexOf h t key < length (heap t)"
  using dir_invD(1,3) IndexOf_less by metis

lemma table_inv_new: "table_inv h (ExtendibleHashTable_new n)"
  by (simp add: table_inv_def dir_inv_def items_inv_def ExtendibleHashTable_new_def Bucket_new_def)

lemma Find_new: "Find h (ExtendibleHashTable_new n) key = None"
  by (simp add: Find_map_of ExtendibleHashTable_new_def Bucket_new_def IndexOf_mod)

lemma dir_inv_heap_update:
  assumes "dir_inv t" "b_depth b = b_depth (heap t ! a)"
  shows "dir_inv (t\<lparr>heap := (heap t)[a := b]\<rparr>)"
proof -
  have d: "b_depth ((heap t)[a := b] ! c) = b_depth (heap t ! c)" if "c < length (heap t)" for c
    using assms(2) that by (cases "c = a") auto
  note D = dir_invD[OF assms(1)]
  show ?thesis
    unfolding dir_inv_def
  proof (intro conjI allI impI)
    fix i j assume "i < length (dir (t\<lparr>heap := (heap t)[a := b]\<rparr>))"
      "j < length (dir (t\<lparr>heap := (heap t)[a := b]\<rparr>))"
    then have i: "i < length (dir t)" and j: "j < length (dir t)" by simp_all
    show "(dir (t\<lparr>heap := (heap t)[a := b]\<rparr>) ! j = dir (t\<lparr>heap := (heap t)[a := b]\<rparr>) ! i) =
        (j mod 2 ^ b_depth (heap (t\<lparr>heap := (heap t)[a := b]\<rparr>) ! (dir (t\<lparr>heap := (heap t)[a := b]\<rparr>) ! i)) =
         i mod 2 ^ b_depth (heap (t\<lparr>heap := (heap t)[a := b]\<rparr>) ! (dir (t\<lparr>heap := (heap t)[a := b]\<rparr>) ! i)))"
      using D(6)[OF i j] d[OF D(3)[OF i]] by simp
  qed (use D d in auto)
qed

lemma IndexOf_heap_update [simp]: "IndexOf h (t\<lparr>heap := hp\<rparr>) key = IndexOf h t key"
  by (simp add: IndexOf_def)

lemma items_inv_heap_update:
  assumes "items_inv h t" "a < length (heap t)"
    and "\<forall>p \<in> set (b_list b). dir t ! IndexOf h t (fst p) = a"
    and "distinct (map fst (b_list b))"
    and "b_size b = bucket_size t" "length (b_list b) \<le> bucket_size t"
  shows "items_inv h (t\<lparr>heap := (heap t)[a := b]\<rparr>)"
  unfolding items_inv_def
proof (intro conjI allI impI ballI)
  fix c p assume "c < length (heap (t\<lparr>heap := (heap t)[a := b]\<rparr>))"
    and "p \<in> set (b_list (heap (t\<lparr>heap := (heap t)[a := b]\<rparr>) ! c))"
  then show "dir (t\<lparr>heap := (heap t)[a := b]\<rparr>) ! IndexOf h (t\<lparr>heap := (heap t)[a := b]\<rparr>) (fst p) = c"
    using assms(1,2,3) items_invD(1)[OF assms(1), of c p] by (cases "c = a") auto
next
  fix c assume c: "c < length (heap (t\<lparr>heap := (heap t)[a := b]\<rparr>))"
  show "distinct (map fst (b_list (heap (t\<lparr>heap := (heap t)[a := b]\<rparr>) ! c)))"
    using c assms(4) items_invD(2)[OF assms(1), of c] by (cases "c = a") auto
  show "b_size (heap (t\<lparr>heap := (heap t)[a := b]\<rparr>) ! c) = bucket_size (t\<lparr>heap := (heap t)[a := b]\<rparr>)"
    using c assms(5) items_invD(3)[OF assms(1), of c] by (cases "c = a") auto
  show "length (b_list (heap (t\<lparr>heap := (heap t)[a := b]\<rparr>) ! c)) \<le> bucket_size (t\<lparr>heap := (heap t)[a := b]\<rparr>)"
    using c assms(6) items_invD(4)[OF assms(1), of c] by (cases "c = a") auto
qed

text \<open>An accepted insert.\<close>

lemma accepted_inv:
  assumes inv: "table_inv h t"
    and acc: "fst (Bucket_Insert (heap t ! (dir t ! IndexOf h t key)) key val)"
  defines "a \<equiv> dir t ! IndexOf h t key"
  defines "t' \<equiv> t\<lparr>heap := (heap t)[a := snd (Bucket_Insert (heap t ! a) key val)]\<rparr>"
  shows "table_inv h t'" and "Find h t' = (Find h t)(key \<mapsto> val)"
proof -
  let ?b = "snd (Bucket_Insert (heap t ! a) key val)"
  have di: "dir_inv t" and ii: "items_inv h t" using inv by (simp_all add: table_inv_def)
  have a: "a < length (heap t)" unfolding a_def using di by (rule target_in_heap)
  have acc': "fst (Bucket_Insert (heap t ! a) key val)" using acc by (simp add: a_def)
  have keys: "fst ` set (b_list ?b) = insert key (fst ` set (b_list (heap t ! a)))"
    using acc' by (rule Bucket_Insert_keys)
  have "dir_inv t'" unfolding t'_def
    by (rule dir_inv_heap_update[OF di]) (simp add: Bucket_Insert_fields)
  moreover have "items_inv h t'" unfolding t'_def
  proof (rule items_inv_heap_update[OF ii a])
    show "\<forall>p \<in> set (b_list ?b). dir t ! IndexOf h t (fst p) = a"
    proof
      fix p assume "p \<in> set (b_list ?b)"
      then have "fst p \<in> insert key (fst ` set (b_list (heap t ! a)))" using keys by auto
      then show "dir t ! IndexOf h t (fst p) = a"
        using items_invD(1)[OF ii a] by (auto simp: a_def)
    qed
    show "distinct (map fst (b_list ?b))"
      using items_invD(2)[OF ii a] by (rule Bucket_Insert_distinct)
    show "b_size ?b = bucket_size t"
      using items_invD(3)[OF ii a] by (simp add: Bucket_Insert_fields)
    have "length (b_list (heap t ! a)) \<le> b_size (heap t ! a)"
      using items_invD(3,4)[OF ii a] by simp
    then have "length (b_list ?b) \<le> b_size (heap t ! a)" by (rule Bucket_Insert_length)
    then show "length (b_list ?b) \<le> bucket_size t" using items_invD(3)[OF ii a] by simp
  qed
  ultimately show "table_inv h t'" by (simp add: table_inv_def)
  show "Find h t' = (Find h t)(key \<mapsto> val)"
  proof
    fix x
    let ?c = "dir t ! IndexOf h t x"
    have c: "?c < length (heap t)" using di by (rule target_in_heap)
    show "Find h t' x = ((Find h t)(key \<mapsto> val)) x"
    proof (cases "?c = a")
      case True
      then have "Find h t' x = map_of (b_list ?b) x"
        using a by (simp add: Find_map_of t'_def)
      also have "\<dots> = ((map_of (b_list (heap t ! a)))(key \<mapsto> val)) x"
        using Bucket_Insert_map_of[OF acc'] by simp
      also have "\<dots> = ((Find h t)(key \<mapsto> val)) x"
        using True by (simp add: Find_map_of)
      finally show ?thesis .
    next
      case False
      then have "x \<noteq> key" by (auto simp: a_def)
      then show ?thesis using False by (simp add: Find_map_of t'_def)
    qed
  qed
qed

text \<open>Remove.\<close>

lemma Remove_inv:
  assumes inv: "table_inv h t" and rm: "Remove h t key = (found, t')"
  shows "table_inv h t'" and "Find h t' = (Find h t)(key := None)"
    and "found \<longleftrightarrow> Find h t key \<noteq> None"
proof -
  define a where "a = dir t ! IndexOf h t key"
  let ?b = "snd (Bucket_Remove (heap t ! a) key)"
  have di: "dir_inv t" and ii: "items_inv h t" using inv by (simp_all add: table_inv_def)
  have a: "a < length (heap t)" unfolding a_def using di by (rule target_in_heap)
  have t': "t' = t\<lparr>heap := (heap t)[a := ?b]\<rparr>" and f: "found = fst (Bucket_Remove (heap t ! a) key)"
    using rm by (auto simp: Remove_def Let_def a_def split: prod.splits)
  have dist: "distinct (map fst (b_list (heap t ! a)))" using items_invD(2)[OF ii a] .
  have l: "b_list ?b = filter (\<lambda>p. fst p \<noteq> key) (b_list (heap t ! a))"
    using dist by (rule Bucket_Remove_list)
  have "dir_inv t'" unfolding t'
    by (rule dir_inv_heap_update[OF di]) (simp add: Bucket_Remove_fields)
  moreover have "items_inv h t'" unfolding t'
  proof (rule items_inv_heap_update[OF ii a])
    show "\<forall>p \<in> set (b_list ?b). dir t ! IndexOf h t (fst p) = a"
      using items_invD(1)[OF ii a] by (auto simp: l)
    show "distinct (map fst (b_list ?b))"
      using dist by (simp add: l distinct_map_filter)
    show "b_size ?b = bucket_size t"
      using items_invD(3)[OF ii a] by (simp add: Bucket_Remove_fields)
    have "length (b_list ?b) \<le> length (b_list (heap t ! a))" by (simp add: l)
    then show "length (b_list ?b) \<le> bucket_size t" using items_invD(4)[OF ii a] by simp
  qed
  ultimately show "table_inv h t'" by (simp add: table_inv_def)
  show "found \<longleftrightarrow> Find h t key \<noteq> None"
    by (simp add: f Bucket_Remove_fields Find_map_of map_of_eq_None_iff a_def)
  show "Find h t' = (Find h t)(key := None)"
  proof
    fix x
    let ?c = "dir t ! IndexOf h t x"
    show "Find h t' x = ((Find h t)(key := None)) x"
    proof (cases "?c = a")
      case True
      then have "Find h t' x = map_of (b_list ?b) x"
        using a by (simp add: Find_map_of t')
      also have "\<dots> = (if x \<noteq> key then map_of (b_list (heap t ! a)) x else None)"
        unfolding l by (rule map_of_filter_key[where P = "\<lambda>k. k \<noteq> key"])
      also have "\<dots> = ((Find h t)(key := None)) x"
        using True by (simp add: Find_map_of)
      finally show ?thesis .
    next
      case False
      then have "x \<noteq> key" by (auto simp: a_def)
      then show ?thesis using False by (simp add: Find_map_of t')
    qed
  qed
qed

subsection \<open>Doubling the directory\<close>

lemma nth_double: "i < 2 * length xs \<Longrightarrow> (xs @ xs) ! i = xs ! (i mod length xs)"
  by (cases "i < length xs") (auto simp: nth_append le_mod_geq)

lemma double_dir_nth:
  assumes "length (dir t) = 2 ^ global_depth t" "i < length (dir (double_directory t))"
  shows "dir (double_directory t) ! i = dir t ! (i mod 2 ^ global_depth t)"
  using assms nth_double[of i "dir t"] by (simp add: double_directory_def)

lemma double_IndexOf:
  assumes "length (dir t) = 2 ^ global_depth t"
  shows "dir (double_directory t) ! IndexOf h (double_directory t) key = dir t ! IndexOf h t key"
proof -
  have "IndexOf h (double_directory t) key < 2 ^ Suc (global_depth t)"
    by (simp add: IndexOf_mod double_directory_def del: power_Suc)
  moreover have "length (dir (double_directory t)) = 2 ^ Suc (global_depth t)"
    using assms by (simp add: double_directory_def)
  ultimately have "IndexOf h (double_directory t) key < length (dir (double_directory t))"
    by simp
  then have "dir (double_directory t) ! IndexOf h (double_directory t) key
      = dir t ! (IndexOf h (double_directory t) key mod 2 ^ global_depth t)"
    by (rule double_dir_nth[OF assms])
  also have "IndexOf h (double_directory t) key mod 2 ^ global_depth t = IndexOf h t key"
    by (simp add: IndexOf_mod double_directory_def mod_mod_pow del: power_Suc)
  finally show ?thesis .
qed

lemma double_inv:
  assumes inv: "table_inv h t"
  shows "table_inv h (double_directory t)" and "Find h (double_directory t) = Find h t"
proof -
  let ?t = "double_directory t"
  have di: "dir_inv t" and ii: "items_inv h t" using inv by (simp_all add: table_inv_def)
  note D = dir_invD[OF di] and I = items_invD[OF ii]
  have len: "length (dir ?t) = 2 ^ global_depth ?t" using D(1) by (simp add: double_directory_def)
  have hp: "heap ?t = heap t" and gd: "global_depth ?t = Suc (global_depth t)"
    and bs: "bucket_size ?t = bucket_size t" and nb: "num_buckets ?t = num_buckets t"
    by (simp_all add: double_directory_def)
  have nth: "dir ?t ! i = dir t ! (i mod 2 ^ global_depth t)" if "i < length (dir ?t)" for i
    using that by (rule double_dir_nth[OF D(1)])
  have modlt: "i mod 2 ^ global_depth t < length (dir t)" for i using D(1) by simp
  have "dir_inv ?t"
    unfolding dir_inv_def
  proof (intro conjI allI impI)
    show "length (dir ?t) = 2 ^ global_depth ?t" by (rule len)
    show "num_buckets ?t = length (heap ?t)" using D(2) by (simp add: hp nb)
  next
    fix i assume "i < length (dir ?t)"
    then show "dir ?t ! i < length (heap ?t)" using D(3)[OF modlt[of i]] by (simp add: nth hp)
  next
    fix a assume "a < length (heap ?t)"
    then obtain i where i: "i < length (dir t)" "dir t ! i = a" using D(4)[of a] hp by auto
    then have "i < length (dir ?t)" "dir ?t ! i = a"
      by (simp_all add: double_directory_def nth_append)
    then show "\<exists>i<length (dir ?t). dir ?t ! i = a" by blast
  next
    fix a assume "a < length (heap ?t)"
    then show "b_depth (heap ?t ! a) \<le> global_depth ?t" using D(5)[of a] by (simp add: hp gd)
  next
    fix i j assume i: "i < length (dir ?t)" and j: "j < length (dir ?t)"
    let ?d = "b_depth (heap t ! (dir t ! (i mod 2 ^ global_depth t)))"
    have dle: "?d \<le> global_depth t" using D(5)[OF D(3)[OF modlt[of i]]] .
    have "(dir ?t ! j = dir ?t ! i) = (dir t ! (j mod 2 ^ global_depth t) = dir t ! (i mod 2 ^ global_depth t))"
      by (simp add: nth[OF i] nth[OF j])
    also have "\<dots> = ((j mod 2 ^ global_depth t) mod 2 ^ ?d = (i mod 2 ^ global_depth t) mod 2 ^ ?d)"
      by (rule D(6)[OF modlt modlt])
    also have "\<dots> = (j mod 2 ^ ?d = i mod 2 ^ ?d)"
      using dle by (simp add: mod_mod_pow)
    finally show "(dir ?t ! j = dir ?t ! i) =
        (j mod 2 ^ b_depth (heap ?t ! (dir ?t ! i)) = i mod 2 ^ b_depth (heap ?t ! (dir ?t ! i)))"
      by (simp add: nth[OF i] hp)
  qed
  moreover have "items_inv h ?t"
    unfolding items_inv_def using I by (auto simp: hp bs double_IndexOf[OF D(1)])
  ultimately show "table_inv h ?t" by (simp add: table_inv_def)
  show "Find h ?t = Find h t"
    by (rule ext) (simp add: Find_map_of double_IndexOf[OF D(1)] hp)
qed

lemma bit_add_pow: "r < 2 ^ d \<Longrightarrow> bit (r + 2 ^ d :: nat) d"
  by (simp add: bit_iff_odd)

lemma bit_less_pow: "r < 2 ^ d \<Longrightarrow> \<not> bit (r :: nat) d"
  by (simp add: bit_iff_odd)

subsection \<open>A split in closed form\<close>

lemma split_at_fields:
  "global_depth (split_at h t a) = global_depth t"
  "bucket_size (split_at h t a) = bucket_size t"
  "num_buckets (split_at h t a) = num_buckets t + 1"
  "length (dir (split_at h t a)) = length (dir t)"
  "length (heap (split_at h t a)) = Suc (length (heap t))"
  by (simp_all add: split_at_def Let_def)

lemma split_at_dir:
  "i < length (dir t) \<Longrightarrow>
   dir (split_at h t a) ! i =
     (if dir t ! i = a \<and> bit i (b_depth (heap t ! a)) then length (heap t) else dir t ! i)"
  by (simp add: split_at_def Let_def)

lemma split_at_heap:
  assumes "a < length (heap t)"
  shows "c < length (heap t) \<Longrightarrow> c \<noteq> a \<Longrightarrow> heap (split_at h t a) ! c = heap t ! c"
    and "heap (split_at h t a) ! a = (heap t ! a)\<lparr>b_depth := b_depth (heap t ! a) + 1,
           b_list := filter (\<lambda>p. \<not> bit (h (fst p)) (b_depth (heap t ! a))) (b_list (heap t ! a))\<rparr>"
    and "heap (split_at h t a) ! length (heap t) = \<lparr>b_size = bucket_size t,
           b_depth = b_depth (heap t ! a) + 1,
           b_list = filter (\<lambda>p. bit (h (fst p)) (b_depth (heap t ! a))) (b_list (heap t ! a))\<rparr>"
  using assms by (simp_all add: split_at_def Let_def nth_append)

lemma IndexOf_split_at [simp]: "IndexOf h (split_at h t a) key = IndexOf h t key"
  by (simp add: IndexOf_def split_at_fields)

lemma split_at_dir_inv:
  assumes di: "dir_inv t" and a: "a < length (heap t)" and dlt: "b_depth (heap t ! a) < global_depth t"
  shows "dir_inv (split_at h t a)"
proof -
  let ?t = "split_at h t a"
  let ?d = "b_depth (heap t ! a)"
  let ?fresh = "length (heap t)"
  note D = dir_invD[OF di]
  note F = split_at_fields[of h t a]
  note H = split_at_heap[OF a, where h = h]
  have dep: "b_depth (heap ?t ! c) = (if c = a \<or> c = ?fresh then ?d + 1 else b_depth (heap t ! c))"
    if "c \<le> ?fresh" for c
    using that H(1)[of c] H(2,3) by (cases "c = a"; cases "c = ?fresh") auto
  obtain i0 where i0: "i0 < length (dir t)" "dir t ! i0 = a" using D(4)[OF a] by blast
  define r where "r = i0 mod 2 ^ ?d"
  have rlt: "r < 2 ^ ?d" by (simp add: r_def)
  have pow: "(2::nat) ^ Suc ?d \<le> 2 ^ global_depth t" using dlt by (simp add: power_increasing del: power_Suc)
  have r_in: "r < length (dir t)" and r2_in: "r + 2 ^ ?d < length (dir t)"
    using rlt pow D(1) by simp_all
  have ra: "dir t ! r = a"
    using D(6)[OF i0(1) r_in] i0(2) by (simp add: r_def)
  have r2a: "dir t ! (r + 2 ^ ?d) = a"
    using D(6)[OF i0(1) r2_in] i0(2) by (simp add: r_def)
  show ?thesis
    unfolding dir_inv_def
  proof (intro conjI allI impI)
    show "length (dir ?t) = 2 ^ global_depth ?t" using D(1) by (simp add: F)
    show "num_buckets ?t = length (heap ?t)" using D(2) by (simp add: F)
  next
    fix i assume "i < length (dir ?t)"
    then have i: "i < length (dir t)" by (simp add: F)
    show "dir ?t ! i < length (heap ?t)" using D(3)[OF i] by (simp add: split_at_dir[OF i] F)
  next
    fix c assume "c < length (heap ?t)"
    then have c: "c \<le> ?fresh" by (simp add: F)
    consider "c = ?fresh" | "c = a" | "c < ?fresh" "c \<noteq> a" using c by linarith
    then show "\<exists>i<length (dir ?t). dir ?t ! i = c"
    proof cases
      case 1
      have "dir ?t ! (r + 2 ^ ?d) = ?fresh"
        using r2a bit_add_pow[OF rlt] by (simp add: split_at_dir[OF r2_in])
      then show ?thesis using r2_in 1 by (auto simp: F)
    next
      case 2
      have "dir ?t ! r = a"
        using ra bit_less_pow[OF rlt] by (simp add: split_at_dir[OF r_in])
      then show ?thesis using r_in 2 by (auto simp: F)
    next
      case 3
      then obtain i where i: "i < length (dir t)" "dir t ! i = c" using D(4)[of c] by blast
      then have "dir ?t ! i = c" using 3 by (simp add: split_at_dir[OF i(1)])
      then show ?thesis using i(1) by (auto simp: F)
    qed
  next
    fix c assume "c < length (heap ?t)"
    then have c: "c \<le> ?fresh" by (simp add: F)
    show "b_depth (heap ?t ! c) \<le> global_depth ?t"
      using dlt D(5)[of c] c by (auto simp: dep[OF c] F)
  next
    fix i j assume "i < length (dir ?t)" "j < length (dir ?t)"
    then have i: "i < length (dir t)" and j: "j < length (dir t)" by (simp_all add: F)
    have ilt: "dir t ! i < ?fresh" and jlt: "dir t ! j < ?fresh" using D(3) i j by auto
    show "(dir ?t ! j = dir ?t ! i) =
        (j mod 2 ^ b_depth (heap ?t ! (dir ?t ! i)) = i mod 2 ^ b_depth (heap ?t ! (dir ?t ! i)))"
    proof (cases "dir t ! i = a")
      case False
      then have di': "dir ?t ! i = dir t ! i" by (simp add: split_at_dir[OF i])
      have "(dir ?t ! j = dir t ! i) = (dir t ! j = dir t ! i)"
        using False ilt by (auto simp: split_at_dir[OF j])
      then show ?thesis
        using D(6)[OF i j] False ilt by (simp add: di' dep)
    next
      case True
      have same: "(dir t ! j = a) = (j mod 2 ^ ?d = i mod 2 ^ ?d)"
        using D(6)[OF i j] True by simp
      have di': "dir ?t ! i = (if bit i ?d then ?fresh else a)"
        using True by (simp add: split_at_dir[OF i])
      have depi: "b_depth (heap ?t ! (dir ?t ! i)) = Suc ?d"
        using a by (simp add: di' dep)
      have "(dir ?t ! j = dir ?t ! i) = (dir t ! j = a \<and> bit j ?d = bit i ?d)"
        using jlt a by (auto simp: di' split_at_dir[OF j])
      also have "\<dots> = (j mod 2 ^ Suc ?d = i mod 2 ^ Suc ?d)"
        unfolding same by (rule mod_Suc_pow_iff[symmetric])
      finally show ?thesis unfolding depi .
    qed
  qed
qed

lemma split_at_items_inv:
  assumes di: "dir_inv t" and ii: "items_inv h t"
    and a: "a < length (heap t)" and dlt: "b_depth (heap t ! a) < global_depth t"
  shows "items_inv h (split_at h t a)"
proof -
  let ?t = "split_at h t a"
  let ?d = "b_depth (heap t ! a)"
  let ?fresh = "length (heap t)"
  note D = dir_invD[OF di] and I = items_invD[OF ii]
  note F = split_at_fields[of h t a]
  note H = split_at_heap[OF a, where h = h]
  have idx: "IndexOf h t k < length (dir t)" for k using D(1) by (rule IndexOf_less)
  have bitk: "bit (IndexOf h t k) ?d = bit (h k) ?d" for k
    using dlt by (simp add: IndexOf_mod bit_mod_pow)
  show ?thesis
    unfolding items_inv_def
  proof (intro conjI allI impI ballI)
    fix c p assume "c < length (heap ?t)" and p: "p \<in> set (b_list (heap ?t ! c))"
    then have c: "c \<le> ?fresh" by (simp add: F)
    consider "c = ?fresh" | "c = a" | "c < ?fresh" "c \<noteq> a" using c by linarith
    then show "dir ?t ! IndexOf h ?t (fst p) = c"
    proof cases
      case 1
      then have "p \<in> set (b_list (heap t ! a))" "bit (h (fst p)) ?d" using p by (auto simp: H(3))
      then show ?thesis using I(1)[OF a, of p] 1 by (simp add: split_at_dir[OF idx] bitk)
    next
      case 2
      then have "p \<in> set (b_list (heap t ! a))" "\<not> bit (h (fst p)) ?d" using p by (auto simp: H(2))
      then show ?thesis using I(1)[OF a, of p] 2 by (simp add: split_at_dir[OF idx] bitk)
    next
      case 3
      then have "p \<in> set (b_list (heap t ! c))" using p by (simp add: H(1))
      then show ?thesis using I(1)[OF 3(1), of p] 3 by (simp add: split_at_dir[OF idx])
    qed
  next
    fix c assume "c < length (heap ?t)"
    then have c: "c \<le> ?fresh" by (simp add: F)
    consider "c = ?fresh" | "c = a" | "c < ?fresh" "c \<noteq> a" using c by linarith
    then show "distinct (map fst (b_list (heap ?t ! c)))"
    proof cases
      case 1
      then show ?thesis using I(2)[OF a] by (simp add: H(3) distinct_map_filter)
    next
      case 2
      then show ?thesis using I(2)[OF a] by (simp add: H(2) distinct_map_filter)
    next
      case 3
      then show ?thesis using I(2)[OF 3(1)] by (simp add: H(1))
    qed
    have le: "length (filter P (b_list (heap t ! a))) \<le> bucket_size t" for P
      using I(4)[OF a] length_filter_le[of P "b_list (heap t ! a)"] by linarith
    consider "c = ?fresh" | "c = a" | "c < ?fresh" "c \<noteq> a" using c by linarith
    then show "b_size (heap ?t ! c) = bucket_size ?t"
    proof cases
      case 1
      then show ?thesis by (simp add: H(3) F)
    next
      case 2
      then show ?thesis using I(3)[OF a] by (simp add: H(2) F)
    next
      case 3
      then show ?thesis using I(3)[OF 3(1)] by (simp add: H(1) F)
    qed
    consider "c = ?fresh" | "c = a" | "c < ?fresh" "c \<noteq> a" using c by linarith
    then show "length (b_list (heap ?t ! c)) \<le> bucket_size ?t"
    proof cases
      case 1
      then show ?thesis using le by (simp add: H(3) F)
    next
      case 2
      then show ?thesis using le by (simp add: H(2) F)
    next
      case 3
      then show ?thesis using I(4)[OF 3(1)] by (simp add: H(1) F)
    qed
  qed
qed

lemma split_at_Find:
  assumes di: "dir_inv t" and ii: "items_inv h t"
    and a: "a < length (heap t)" and dlt: "b_depth (heap t ! a) < global_depth t"
  shows "Find h (split_at h t a) = Find h t"
proof
  fix k
  let ?t = "split_at h t a"
  let ?d = "b_depth (heap t ! a)"
  let ?x = "IndexOf h t k"
  note D = dir_invD[OF di]
  note H = split_at_heap[OF a, where h = h]
  have idx: "?x < length (dir t)" using D(1) by (rule IndexOf_less)
  have c: "dir t ! ?x < length (heap t)" using D(3)[OF idx] .
  have bitk: "bit ?x ?d = bit (h k) ?d"
    using dlt by (simp add: IndexOf_mod bit_mod_pow)
  show "Find h ?t k = Find h t k"
  proof (cases "dir t ! ?x = a")
    case False
    then show ?thesis using c by (simp add: Find_map_of split_at_dir[OF idx] H(1))
  next
    case True
    show ?thesis
    proof (cases "bit (h k) ?d")
      case b: True
      have "Find h ?t k = map_of (filter (\<lambda>p. bit (h (fst p)) ?d) (b_list (heap t ! a))) k"
        using True b bitk by (simp add: Find_map_of split_at_dir[OF idx] H(3))
      also have "\<dots> = map_of (b_list (heap t ! a)) k"
        using b by (simp add: map_of_filter_key[where P = "\<lambda>k. bit (h k) ?d"])
      finally show ?thesis using True by (simp add: Find_map_of)
    next
      case b: False
      have "Find h ?t k = map_of (filter (\<lambda>p. \<not> bit (h (fst p)) ?d) (b_list (heap t ! a))) k"
        using True b bitk by (simp add: Find_map_of split_at_dir[OF idx] H(2))
      also have "\<dots> = map_of (b_list (heap t ! a)) k"
        using b by (simp add: map_of_filter_key[where P = "\<lambda>k. \<not> bit (h k) ?d"])
      finally show ?thesis using True by (simp add: Find_map_of)
    qed
  qed
qed

lemma split_at_target_depth:
  assumes di: "dir_inv t" and a: "a < length (heap t)" and k: "dir t ! IndexOf h t k = a"
  shows "b_depth (heap (split_at h t a) ! (dir (split_at h t a) ! IndexOf h (split_at h t a) k))
         = Suc (b_depth (heap t ! a))"
proof -
  note D = dir_invD[OF di]
  have idx: "IndexOf h t k < length (dir t)" using D(1) by (rule IndexOf_less)
  show ?thesis using k a split_at_heap(2,3)[OF a, where h = h]
    by (simp add: split_at_dir[OF idx])
qed

subsection \<open>The split of the source is the closed form\<close>

lemma IndexOf_dir_update [simp]: "IndexOf h (t\<lparr>dir := d\<rparr>) key = IndexOf h t key"
  by (simp add: IndexOf_def)

lemma redirect_eq:
  assumes di: "dir_inv t" and idx: "index < length (dir t)" and a: "dir t ! index = a"
  shows "redirect (dir t) (push_bit (b_depth (heap t ! a)) 1)
           (index AND (push_bit (b_depth (heap t ! a)) 1 - 1)) a fresh
         = map (\<lambda>i. if dir t ! i = a \<and> bit i (b_depth (heap t ! a)) then fresh else dir t ! i)
             [0..<length (dir t)]"
  unfolding redirect_def
proof (rule map_cong[OF refl])
  fix i assume "i \<in> set [0..<length (dir t)]"
  then have i: "i < length (dir t)" by simp
  let ?d = "b_depth (heap t ! a)"
  have "(dir t ! i = a) = (i mod 2 ^ ?d = index mod 2 ^ ?d)"
    using dir_invD(6)[OF di idx i] a by simp
  then have eq: "dir t ! i = a \<Longrightarrow> i mod 2 ^ ?d = index mod 2 ^ ?d" by simp
  have m1: "(i AND (push_bit ?d 1 - 1)) = i mod 2 ^ ?d"
    and m2: "(index AND (push_bit ?d 1 - 1)) = index mod 2 ^ ?d"
    by (rule and_mask_mod)+
  have z: "((i AND push_bit ?d 1) = 0) = (\<not> bit i ?d)" by (rule and_bit_zero)
  show "(if (i AND (push_bit ?d 1 - 1)) = (index AND (push_bit ?d 1 - 1)) \<and> dir t ! i = a
        then if (i AND push_bit ?d 1) = 0 then a else fresh else dir t ! i)
      = (if dir t ! i = a \<and> bit i ?d then fresh else dir t ! i)"
    unfolding m1 m2 z using eq by auto
qed

lemma split_pointers_eq:
  assumes di: "dir_inv t" and idx: "index < length (dir t)" and a: "dir t ! index = a"
  shows "split_pointers t index a =
     t\<lparr>dir := map (\<lambda>i. if dir t ! i = a \<and> bit i (b_depth (heap t ! a)) then length (heap t) else dir t ! i)
                 [0..<length (dir t)],
       heap := (heap t)[a := (heap t ! a)\<lparr>b_depth := b_depth (heap t ! a) + 1\<rparr>]
               @ [\<lparr>b_size = bucket_size t, b_depth = b_depth (heap t ! a) + 1, b_list = []\<rparr>]\<rparr>"
  unfolding split_pointers_def Let_def GetDepth_def IncrementDepth_def Bucket_new_def
    redirect_eq[OF assms]
  by (rule refl)

lemma split_items_eq:
  assumes di: "dir_inv t" and ii: "items_inv h t"
    and a: "a < length (heap t)" and dlt: "b_depth (heap t ! a) < global_depth t"
    and idx: "index < length (dir t)" and ia: "dir t ! index = a"
  shows "split_items h (split_pointers t index a) a (length (heap t)) = split_at h t a"
proof -
  let ?d = "b_depth (heap t ! a)"
  let ?fresh = "length (heap t)"
  let ?dir2 = "map (\<lambda>i. if dir t ! i = a \<and> bit i ?d then ?fresh else dir t ! i) [0..<length (dir t)]"
  let ?old = "(heap t ! a)\<lparr>b_depth := ?d + 1\<rparr>"
  let ?nb = "\<lparr>b_size = bucket_size t, b_depth = ?d + 1, b_list = []\<rparr> :: ('a, 'b) Bucket"
  let ?heap1 = "(heap t)[a := ?old] @ [?nb]"
  let ?t2 = "t\<lparr>dir := ?dir2, heap := ?heap1\<rparr>"
  let ?items = "b_list (heap t ! a)"
  note D = dir_invD[OF di] and I = items_invD[OF ii]
  have t2: "split_pointers t index a = ?t2" by (rule split_pointers_eq[OF di idx ia])
  have h1a: "?heap1 ! a = ?old" and h1f: "?heap1 ! ?fresh = ?nb"
    using a by (simp_all add: nth_append)
  have ix: "IndexOf h ?t2 k = IndexOf h t k" for k by (simp add: IndexOf_def)
  have idxk: "IndexOf h t k < length (dir t)" for k using D(1) by (rule IndexOf_less)
  have moves: "(dir ?t2 ! IndexOf h ?t2 (fst p) \<noteq> a) = bit (h (fst p)) ?d" if "p \<in> set ?items" for p
  proof -
    have "dir t ! IndexOf h t (fst p) = a" using I(1)[OF a that] .
    moreover have "bit (IndexOf h t (fst p)) ?d = bit (h (fst p)) ?d"
      using dlt by (simp add: IndexOf_mod bit_mod_pow)
    ultimately show ?thesis using a idxk[of "fst p"] by (simp add: ix)
  qed
  have le: "length (filter P ?items) \<le> bucket_size t" for P
    using I(4)[OF a] length_filter_le[of P ?items] by linarith
  have "redistribute (\<lambda>key. dir ?t2 ! IndexOf h ?t2 key \<noteq> a) ?items ?nb
      = (filter (\<lambda>p. \<not> (dir ?t2 ! IndexOf h ?t2 (fst p) \<noteq> a)) ?items,
         ?nb\<lparr>b_list := b_list ?nb @ filter (\<lambda>p. dir ?t2 ! IndexOf h ?t2 (fst p) \<noteq> a) ?items\<rparr>)"
    by (rule redistribute_filter) (use I(2)[OF a] le in simp_all)
  also have "filter (\<lambda>p. \<not> (dir ?t2 ! IndexOf h ?t2 (fst p) \<noteq> a)) ?items
      = filter (\<lambda>p. \<not> bit (h (fst p)) ?d) ?items"
    by (rule filter_cong[OF refl]) (simp only: moves)
  also have "filter (\<lambda>p. dir ?t2 ! IndexOf h ?t2 (fst p) \<noteq> a) ?items
      = filter (\<lambda>p. bit (h (fst p)) ?d) ?items"
    by (rule filter_cong[OF refl]) (simp only: moves)
  finally have red: "redistribute (\<lambda>key. dir ?t2 ! IndexOf h ?t2 key \<noteq> a) ?items ?nb
      = (filter (\<lambda>p. \<not> bit (h (fst p)) ?d) ?items,
         ?nb\<lparr>b_list := b_list ?nb @ filter (\<lambda>p. bit (h (fst p)) ?d) ?items\<rparr>)" .
  have items: "b_list (heap ?t2 ! a) = ?items" and nbq: "heap ?t2 ! ?fresh = ?nb"
    using h1a h1f by simp_all
  have "split_items h ?t2 a ?fresh =
      ?t2\<lparr>heap := (heap ?t2)[a := (heap ?t2 ! a)\<lparr>b_list := filter (\<lambda>p. \<not> bit (h (fst p)) ?d) ?items\<rparr>,
                  ?fresh := ?nb\<lparr>b_list := b_list ?nb @ filter (\<lambda>p. bit (h (fst p)) ?d) ?items\<rparr>],
          num_buckets := num_buckets ?t2 + 1\<rparr>"
    unfolding split_items_def GetItems_def items nbq red by simp
  also have "\<dots> = split_at h t a"
    using a by (simp add: split_at_def Let_def list_update_append nth_append)
  finally show ?thesis by (simp only: t2)
qed

lemma Split_eq:
  assumes inv: "table_inv h t" and idx: "index < length (dir t)"
  shows "Split h t index =
     split_at h (if b_depth (heap t ! (dir t ! index)) = global_depth t then double_directory t else t)
       (dir t ! index)"
    and "table_inv h (if b_depth (heap t ! (dir t ! index)) = global_depth t then double_directory t else t)"
    and "b_depth (heap (if b_depth (heap t ! (dir t ! index)) = global_depth t then double_directory t else t) ! (dir t ! index))
         < global_depth (if b_depth (heap t ! (dir t ! index)) = global_depth t then double_directory t else t)"
proof -
  let ?a = "dir t ! index"
  let ?t1 = "if b_depth (heap t ! ?a) = global_depth t then double_directory t else t"
  have di: "dir_inv t" using inv by (simp add: table_inv_def)
  note D = dir_invD[OF di]
  have a: "?a < length (heap t)" using D(3)[OF idx] .
  show inv1: "table_inv h ?t1" using inv double_inv(1)[OF inv] by simp
  then have di1: "dir_inv ?t1" and ii1: "items_inv h ?t1" by (simp_all add: table_inv_def)
  have hp: "heap ?t1 = heap t" by (simp add: double_directory_def)
  have idx1: "index < length (dir ?t1)" using idx by (simp add: double_directory_def)
  have ia1: "dir ?t1 ! index = ?a" using idx by (simp add: double_directory_def nth_append)
  show dlt: "b_depth (heap ?t1 ! ?a) < global_depth ?t1"
    using D(5)[OF a] by (auto simp: double_directory_def)
  have a1: "?a < length (heap ?t1)" using a by (simp add: hp)
  have "Split h t index = split_items h (split_pointers ?t1 index ?a) ?a (length (heap ?t1))"
    by (simp add: Split_def Let_def GetDepth_def)
  also have "\<dots> = split_at h ?t1 ?a"
    by (rule split_items_eq[OF di1 ii1 a1 dlt idx1 ia1])
  finally show "Split h t index = split_at h ?t1 ?a" .
qed

lemma Split_inv:
  assumes inv: "table_inv h t" and idx: "index < length (dir t)"
  shows "table_inv h (Split h t index)" and "Find h (Split h t index) = Find h t"
proof -
  let ?a = "dir t ! index"
  let ?t1 = "if b_depth (heap t ! ?a) = global_depth t then double_directory t else t"
  note S = Split_eq[OF inv idx]
  have di1: "dir_inv ?t1" and ii1: "items_inv h ?t1" using S(2) by (simp_all add: table_inv_def)
  have a1: "?a < length (heap ?t1)"
    using dir_invD(3)[of t, OF _ idx] inv by (simp add: table_inv_def double_directory_def)
  show "table_inv h (Split h t index)"
    unfolding S(1) table_inv_def
    using split_at_dir_inv[OF di1 a1 S(3)] split_at_items_inv[OF di1 ii1 a1 S(3)] by simp
  have "Find h (Split h t index) = Find h ?t1"
    unfolding S(1) by (rule split_at_Find[OF di1 ii1 a1 S(3)])
  also have "\<dots> = Find h t" using double_inv(2)[OF inv] by simp
  finally show "Find h (Split h t index) = Find h t" .
qed

subsection \<open>Insert: invariants and termination\<close>

lemma Insert_step:
  "Insert h t key val =
     (if 31 \<le> global_depth t then None
      else if fst (Bucket_Insert (heap t ! (dir t ! IndexOf h t key)) key val)
      then Some (t\<lparr>heap := (heap t)[dir t ! IndexOf h t key :=
                    snd (Bucket_Insert (heap t ! (dir t ! IndexOf h t key)) key val)]\<rparr>)
      else Insert h (Split h t (IndexOf h t key)) key val)"
  by (subst Insert.simps) (simp add: Let_def split: prod.splits)

lemma Insert_inv_aux:
  assumes "Insert h t key val = Some t'"
  shows "table_inv h t \<longrightarrow>
         table_inv h t' \<and> Find h t' = (Find h t)(key \<mapsto> val) \<and> global_depth t' \<le> 30"
proof (rule Insert.raw_induct[where P = "\<lambda>h t key val t'. table_inv h t \<longrightarrow>
        table_inv h t' \<and> Find h t' = (Find h t)(key \<mapsto> val) \<and> global_depth t' \<le> 30", OF _ assms])
  fix Insert' :: "('a \<Rightarrow> nat) \<Rightarrow> ('a, 'b) ExtendibleHashTable \<Rightarrow> 'a \<Rightarrow> 'b \<Rightarrow> ('a, 'b) ExtendibleHashTable option"
  fix h t key val t'
  assume IH: "\<And>h t key val t'. Insert' h t key val = Some t' \<Longrightarrow> table_inv h t \<longrightarrow>
      table_inv h t' \<and> Find h t' = (Find h t)(key \<mapsto> val) \<and> global_depth t' \<le> 30"
  assume body: "(if 31 \<le> global_depth t then None
      else let index = IndexOf h t key; target_bucket = dir t ! index
      in case Bucket_Insert (heap t ! target_bucket) key val of
         (accepted, b) \<Rightarrow>
           if accepted then Some (t\<lparr>heap := (heap t)[target_bucket := b]\<rparr>)
           else Insert' h (Split h t index) key val) = Some t'"
  let ?x = "IndexOf h t key"
  let ?a = "dir t ! ?x"
  have gd: "global_depth t \<le> 30" using body by (auto split: if_splits)
  show "table_inv h t \<longrightarrow>
        table_inv h t' \<and> Find h t' = (Find h t)(key \<mapsto> val) \<and> global_depth t' \<le> 30"
  proof
    assume inv: "table_inv h t"
    then have di: "dir_inv t" by (simp add: table_inv_def)
    have idx: "?x < length (dir t)" using dir_invD(1)[OF di] by (rule IndexOf_less)
    show "table_inv h t' \<and> Find h t' = (Find h t)(key \<mapsto> val) \<and> global_depth t' \<le> 30"
    proof (cases "fst (Bucket_Insert (heap t ! ?a) key val)")
      case True
      then have "t' = t\<lparr>heap := (heap t)[?a := snd (Bucket_Insert (heap t ! ?a) key val)]\<rparr>"
        using body gd by (simp add: Let_def split: prod.splits)
      then show ?thesis using accepted_inv[OF inv True] gd by simp
    next
      case False
      then have "Insert' h (Split h t ?x) key val = Some t'"
        using body gd by (simp add: Let_def split: prod.splits)
      then have "table_inv h (Split h t ?x) \<longrightarrow>
          table_inv h t' \<and> Find h t' = (Find h (Split h t ?x))(key \<mapsto> val) \<and> global_depth t' \<le> 30"
        by (rule IH)
      then show ?thesis using Split_inv[OF inv idx] by simp
    qed
  qed
qed

lemma Insert_inv:
  assumes "table_inv h t" "Insert h t key val = Some t'"
  shows "table_inv h t'" and "Find h t' = (Find h t)(key \<mapsto> val)" and "global_depth t' \<le> 30"
  using Insert_inv_aux[OF assms(2)] assms(1) by simp_all

lemma reachable_inv: "table_reachable h t \<Longrightarrow> table_inv h t"
proof (induction rule: table_reachable.induct)
  case (new n)
  show ?case by (rule table_inv_new)
next
  case (insert t key val t')
  then show ?case by (blast intro: Insert_inv(1))
next
  case (remove t key found t')
  then show ?case by (blast intro: Remove_inv(1))
qed

lemma reachable_depth: "table_reachable h t \<Longrightarrow> global_depth t \<le> 30"
proof (induction rule: table_reachable.induct)
  case (new n)
  show ?case by (simp add: ExtendibleHashTable_new_def)
next
  case (insert t key val t')
  show ?case using Insert_inv(3)[OF reachable_inv[OF insert.hyps(1)] insert.hyps(2)] .
next
  case (remove t key found t')
  then show ?case by (auto simp: Remove_def Let_def split: prod.splits)
qed

lemma finite_dom_Find:
  assumes "table_inv h t"
  shows "finite (dom (Find h t))"
proof -
  have di: "dir_inv t" using assms by (simp add: table_inv_def)
  have "dom (Find h t) \<subseteq> (\<Union>a \<in> {..<length (heap t)}. fst ` set (b_list (heap t ! a)))"
  proof
    fix k assume "k \<in> dom (Find h t)"
    then have "map_of (b_list (heap t ! (dir t ! IndexOf h t k))) k \<noteq> None"
      by (auto simp: Find_map_of)
    then have "k \<in> fst ` set (b_list (heap t ! (dir t ! IndexOf h t k)))"
      by (simp add: map_of_eq_None_iff)
    then show "k \<in> (\<Union>a \<in> {..<length (heap t)}. fst ` set (b_list (heap t ! a)))"
      using target_in_heap[OF di, of h k] by blast
  qed
  then show ?thesis by (rule finite_subset) simp
qed

lemma refused_depth_less:
  assumes inv: "table_inv h t"
    and refused: "\<not> fst (Bucket_Insert (heap t ! (dir t ! IndexOf h t key)) key val)"
    and few: "card (colliding h t key w) \<le> bucket_size t"
  shows "b_depth (heap t ! (dir t ! IndexOf h t key)) < w"
proof (rule ccontr)
  let ?a = "dir t ! IndexOf h t key"
  let ?d = "b_depth (heap t ! ?a)"
  let ?K = "fst ` set (b_list (heap t ! ?a))"
  assume "\<not> ?d < w"
  then have wd: "w \<le> ?d" by simp
  have di: "dir_inv t" and ii: "items_inv h t" using inv by (simp_all add: table_inv_def)
  note D = dir_invD[OF di] and I = items_invD[OF ii]
  have a: "?a < length (heap t)" using di by (rule target_in_heap)
  have idx: "IndexOf h t k < length (dir t)" for k using D(1) by (rule IndexOf_less)
  have full: "IsFull (heap t ! ?a)" and notin: "key \<notin> ?K"
    using refused by (simp_all add: Bucket_Insert_accepts)
  have dle: "?d \<le> global_depth t" using D(5)[OF a] .
  have sub: "insert key ?K \<subseteq> colliding h t key w"
  proof
    fix k assume "k \<in> insert key ?K"
    then show "k \<in> colliding h t key w"
    proof
      assume "k = key" then show ?thesis by (simp add: colliding_def)
    next
      assume k: "k \<in> ?K"
      then obtain p where p: "p \<in> set (b_list (heap t ! ?a))" "fst p = k" by auto
      have ka: "dir t ! IndexOf h t k = ?a" using I(1)[OF a p(1)] p(2) by simp
      have "map_of (b_list (heap t ! ?a)) k \<noteq> None" using k by (simp add: map_of_eq_None_iff)
      then have dom: "k \<in> dom (Find h t)" using ka by (auto simp: Find_map_of)
      have "IndexOf h t k mod 2 ^ ?d = IndexOf h t key mod 2 ^ ?d"
        using D(6)[OF idx[of key] idx[of k]] ka by simp
      then have "h k mod 2 ^ ?d = h key mod 2 ^ ?d"
        using dle by (simp add: IndexOf_mod mod_mod_pow)
      then have "(h k mod 2 ^ ?d) mod 2 ^ w = (h key mod 2 ^ ?d) mod 2 ^ w" by simp
      then have "h k mod 2 ^ w = h key mod 2 ^ w" using wd by (simp add: mod_mod_pow)
      then show ?thesis using dom by (simp add: colliding_def)
    qed
  qed
  have fin: "finite (colliding h t key w)"
    using finite_dom_Find[OF inv] by (simp add: colliding_def)
  have "card ?K = length (b_list (heap t ! ?a))"
    using I(2)[OF a] by (metis distinct_card length_map set_map)
  also have "\<dots> = bucket_size t" using full I(3)[OF a] by (simp add: IsFull_def)
  finally have "card (insert key ?K) = Suc (bucket_size t)" using notin by simp
  then have "Suc (bucket_size t) \<le> card (colliding h t key w)"
    using card_mono[OF fin sub] by simp
  then show False using few by simp
qed

lemma Split_target_depth:
  assumes inv: "table_inv h t"
  shows "b_depth (heap (Split h t (IndexOf h t key)) !
            (dir (Split h t (IndexOf h t key)) ! IndexOf h (Split h t (IndexOf h t key)) key))
         = Suc (b_depth (heap t ! (dir t ! IndexOf h t key)))"
    and "bucket_size (Split h t (IndexOf h t key)) = bucket_size t"
    and "global_depth (Split h t (IndexOf h t key))
         = max (global_depth t) (Suc (b_depth (heap t ! (dir t ! IndexOf h t key))))"
proof -
  let ?x = "IndexOf h t key"
  let ?a = "dir t ! ?x"
  let ?t1 = "if b_depth (heap t ! ?a) = global_depth t then double_directory t else t"
  have di: "dir_inv t" using inv by (simp add: table_inv_def)
  note D = dir_invD[OF di]
  have idx: "?x < length (dir t)" using D(1) by (rule IndexOf_less)
  note S = Split_eq[OF inv idx]
  have di1: "dir_inv ?t1" using S(2) by (simp add: table_inv_def)
  have hp: "heap ?t1 = heap t" by (simp add: double_directory_def)
  have a1: "?a < length (heap ?t1)" using D(3)[OF idx] by (simp add: hp)
  have k1: "dir ?t1 ! IndexOf h ?t1 key = ?a" using double_IndexOf[OF D(1)] by simp
  show "b_depth (heap (Split h t ?x) ! (dir (Split h t ?x) ! IndexOf h (Split h t ?x) key))
         = Suc (b_depth (heap t ! ?a))"
    unfolding S(1) using split_at_target_depth[OF di1 a1 k1] by (simp add: hp)
  show "bucket_size (Split h t ?x) = bucket_size t"
    unfolding S(1) by (simp add: split_at_fields double_directory_def)
  show "global_depth (Split h t ?x) = max (global_depth t) (Suc (b_depth (heap t ! ?a)))"
    unfolding S(1) using D(5)[OF D(3)[OF idx]]
    by (auto simp: split_at_fields double_directory_def)
qed

lemma Insert_returns_aux:
  assumes "table_inv h t" "card (colliding h t key w) \<le> bucket_size t"
    and "global_depth t \<le> 30" "w \<le> 30"
  shows "\<exists>t'. Insert h t key val = Some t' \<and> global_depth t' \<le> max (global_depth t) w"
  using assms(1,2,3)
proof (induction "w - b_depth (heap t ! (dir t ! IndexOf h t key))" arbitrary: t rule: less_induct)
  case less
  let ?x = "IndexOf h t key"
  let ?a = "dir t ! ?x"
  have guard: "\<not> 31 \<le> global_depth t" using less.prems(3) by simp
  show ?case
  proof (cases "fst (Bucket_Insert (heap t ! ?a) key val)")
    case True
    then show ?thesis using guard by (subst Insert_step) simp
  next
    case False
    let ?t2 = "Split h t ?x"
    have di: "dir_inv t" using less.prems(1) by (simp add: table_inv_def)
    have idx: "?x < length (dir t)" using dir_invD(1)[OF di] by (rule IndexOf_less)
    have dlt: "b_depth (heap t ! ?a) < w"
      using less.prems(1) False less.prems(2) by (rule refused_depth_less)
    note T = Split_target_depth[OF less.prems(1), of key]
    note S = Split_inv[OF less.prems(1) idx]
    have "colliding h ?t2 key w = colliding h t key w" by (simp add: colliding_def S(2))
    then have few: "card (colliding h ?t2 key w) \<le> bucket_size ?t2"
      using less.prems(2) T(2) by simp
    have gd2: "global_depth ?t2 \<le> 30" using T(3) dlt less.prems(3) assms(4) by simp
    have "w - b_depth (heap ?t2 ! (dir ?t2 ! IndexOf h ?t2 key)) < w - b_depth (heap t ! ?a)"
      using dlt T(1) by simp
    then obtain t' where t': "Insert h ?t2 key val = Some t'" "global_depth t' \<le> max (global_depth ?t2) w"
      using less.hyps[OF _ S(1) few gd2] by blast
    have "global_depth t' \<le> max (global_depth t) w" using t'(2) T(3) dlt by simp
    moreover have "Insert h t key val = Some t'" using False t'(1) guard by (subst Insert_step) simp
    ultimately show ?thesis by blast
  qed
qed

subsection \<open>Map semantics, directory shape, overwrite, termination\<close>

lemma latest_Insert: "latest (Op_Insert k v # done) = (latest done)(k \<mapsto> v)"
  by (rule ext) simp

lemma latest_Remove: "latest (Op_Remove k # done) = (latest done)(k := None)"
  by (rule ext) simp

lemma run_ops_latest:
  "table_inv h t \<Longrightarrow> Find h t = latest done \<Longrightarrow> run_ops h t ops = Some (t', results) \<Longrightarrow>
   Find h t' = latest (rev ops @ done) \<and> results = remove_results done ops"
proof (induction ops arbitrary: t "done" results)
  case Nil
  then show ?case by simp
next
  case (Cons op ops)
  show ?case
  proof (cases op)
    case (Op_Insert k v)
    then obtain t1 where t1: "Insert h t k v = Some t1" "run_ops h t1 ops = Some (t', results)"
      using Cons.prems(3) by (auto split: option.splits)
    have "Find h t1 = latest (Op_Insert k v # done)"
      using Insert_inv(2)[OF Cons.prems(1) t1(1)] Cons.prems(2) by (simp add: latest_Insert)
    then have "Find h t' = latest (rev ops @ Op_Insert k v # done) \<and>
        results = remove_results (Op_Insert k v # done) ops"
      using Insert_inv(1)[OF Cons.prems(1) t1(1)] t1(2) by (intro Cons.IH)
    then show ?thesis by (simp add: Op_Insert)
  next
    case (Op_Remove k)
    obtain found t1 where rm: "Remove h t k = (found, t1)" by (cases "Remove h t k")
    then obtain rest where rest: "run_ops h t1 ops = Some (t', rest)" "results = found # rest"
      using Cons.prems(3) Op_Remove by (auto split: option.splits)
    note R = Remove_inv[OF Cons.prems(1) rm]
    have "Find h t1 = latest (Op_Remove k # done)"
      using R(2) Cons.prems(2) by (simp add: latest_Remove)
    then have "Find h t' = latest (rev ops @ Op_Remove k # done) \<and>
        rest = remove_results (Op_Remove k # done) ops"
      using R(1) rest(1) by (intro Cons.IH)
    moreover have "found = (latest done k \<noteq> None)" using R(3) Cons.prems(2) by simp
    ultimately show ?thesis by (simp add: Op_Remove rest(2))
  qed
qed

text \<open>
  Claim C3 (directory aliasing): in every reachable table, every bucket is pointed to by
  some slot, and, \<open>d\<close> being its local depth, by exactly the slots \<open>j\<close> with
  \<open>j & ((1 << d) - 1)\<close> equal to that of any slot \<open>i\<close> pointing to it.
\<close>

theorem directory_aliasing:
  assumes "table_reachable h t" "a < length (heap t)"
  shows "(\<exists>i < length (dir t). dir t ! i = a) \<and>
         (\<forall>i < length (dir t). \<forall>j < length (dir t). dir t ! i = a \<longrightarrow>
            (dir t ! j = a) =
            (j AND (push_bit (GetDepth (heap t ! a)) 1 - 1) = i AND (push_bit (GetDepth (heap t ! a)) 1 - 1)))"
proof -
  have "dir_inv t" using reachable_inv[OF assms(1)] by (simp add: table_inv_def)
  note D = dir_invD[OF this]
  show ?thesis
  proof (intro conjI allI impI)
    show "\<exists>i < length (dir t). dir t ! i = a" using D(4)[OF assms(2)] .
  next
    fix i j assume i: "i < length (dir t)" and j: "j < length (dir t)" and a: "dir t ! i = a"
    show "(dir t ! j = a) =
            (j AND (push_bit (GetDepth (heap t ! a)) 1 - 1) = i AND (push_bit (GetDepth (heap t ! a)) 1 - 1))"
      unfolding and_mask_mod GetDepth_def using D(6)[OF i j] a by simp
  qed
qed

text \<open>
  Claim C4 (depth discipline): in every reachable table the global depth is at least the
  local depth of every bucket (of the store, and so of every slot), and the directory has
  \<open>2 ^ global_depth\<close> slots.
\<close>

theorem depth_discipline:
  assumes "table_reachable h t"
  shows "(\<forall>a < length (heap t). GetDepth (heap t ! a) \<le> GetGlobalDepth t) \<and>
         (\<forall>i < length (dir t). GetLocalDepth t i \<le> GetGlobalDepth t) \<and>
         length (dir t) = 2 ^ GetGlobalDepth t"
proof -
  have "dir_inv t" using reachable_inv[OF assms(1)] by (simp add: table_inv_def)
  note D = dir_invD[OF this]
  show ?thesis
    using D(1) D(5) D(3) by (simp add: GetDepth_def GetGlobalDepth_def GetLocalDepth_def)
qed

text \<open>
  Claim C5 (overwrite without split): when the key is present, \<open>Insert\<close> returns, the
  table then maps the key to the new value and every other key as before, and the global
  depth, the directory, the bucket count, the number of buckets in the store and their
  local depths are unchanged, whether or not the bucket is full.
\<close>

theorem Insert_existing_key_overwrites:
  assumes "table_reachable h t" "Find h t key = Some old"
  shows "\<exists>t'. Insert h t key val = Some t' \<and>
           Find h t' = (Find h t)(key \<mapsto> val) \<and>
           global_depth t' = global_depth t \<and> dir t' = dir t \<and>
           num_buckets t' = num_buckets t \<and> length (heap t') = length (heap t) \<and>
           (\<forall>a < length (heap t). GetDepth (heap t' ! a) = GetDepth (heap t ! a))"
proof -
  let ?a = "dir t ! IndexOf h t key"
  let ?t' = "t\<lparr>heap := (heap t)[?a := snd (Bucket_Insert (heap t ! ?a) key val)]\<rparr>"
  have inv: "table_inv h t" using assms(1) by (rule reachable_inv)
  have "map_of (b_list (heap t ! ?a)) key \<noteq> None" using assms(2) by (simp add: Find_map_of)
  then have "key \<in> fst ` set (b_list (heap t ! ?a))" by (simp add: map_of_eq_None_iff)
  then have acc: "fst (Bucket_Insert (heap t ! ?a) key val)" by (simp add: Bucket_Insert_accepts)
  moreover have "\<not> 31 \<le> global_depth t" using reachable_depth[OF assms(1)] by simp
  ultimately have "Insert h t key val = Some ?t'" by (subst Insert_step) simp
  moreover have "Find h ?t' = (Find h t)(key \<mapsto> val)" using accepted_inv(2)[OF inv acc] .
  moreover have "GetDepth (heap ?t' ! a) = GetDepth (heap t ! a)" if "a < length (heap t)" for a
    using that by (cases "a = ?a") (simp_all add: GetDepth_def Bucket_Insert_fields)
  ultimately show ?thesis by simp
qed

text \<open>
  Claim C6 (termination of \<open>Insert\<close>), as amended: take a width \<open>w\<close> of at most 30
  bits. If, among the keys of the table together with the new key, at most
  \<open>bucket_size_\<close> have a hash that agrees with the new key's on all of the low \<open>w\<close>
  bits, then \<open>Insert\<close> returns a table, and the global depth ends no higher than the
  larger of its old value and \<open>w\<close>.
\<close>

theorem Insert_returns:
  assumes "table_reachable h t" "w \<le> 30" "card (colliding h t key w) \<le> bucket_size t"
  shows "\<exists>t'. Insert h t key val = Some t' \<and> global_depth t' \<le> max (global_depth t) w"
  using reachable_inv[OF assms(1)] assms(3) reachable_depth[OF assms(1)] assms(2)
  by (rule Insert_returns_aux)

subsection \<open>Example tables\<close>

lemma after_Insert_reachable:
  "table_reachable h t \<Longrightarrow> table_reachable h (after_Insert h key val t)"
  by (auto simp: after_Insert_def split: option.splits intro: table_reachable.insert)

lemma table_A_reachable: "table_reachable (\<lambda>k. k) table_A"
  unfolding table_A_def by (intro after_Insert_reachable table_reachable.new)

lemma table_B_reachable: "table_reachable (\<lambda>k. k) table_B"
  unfolding table_B_def by (intro after_Insert_reachable table_A_reachable)

lemma table_Z_reachable: "table_reachable (\<lambda>k. k) table_Z"
  unfolding table_Z_def by (intro after_Insert_reachable table_reachable.new)

lemma table_A_value:
  "table_A = \<lparr>global_depth = 0, bucket_size = 2, num_buckets = 1, dir = [0],
     heap = [\<lparr>b_size = 2, b_depth = 0, b_list = [(1, 10), (2, 20)]\<rparr>]\<rparr>"
  by code_simp

lemma table_B_value:
  "table_B = \<lparr>global_depth = 3, bucket_size = 2, num_buckets = 4,
     dir = [0, 1, 0, 2, 0, 3, 0, 2],
     heap =
       [\<lparr>b_size = 2, b_depth = 1, b_list = [(2, 20)]\<rparr>,
        \<lparr>b_size = 2, b_depth = 3, b_list = [(1, 10), (9, 90)]\<rparr>,
        \<lparr>b_size = 2, b_depth = 2, b_list = [(3, 30)]\<rparr>,
        \<lparr>b_size = 2, b_depth = 3, b_list = [(5, 50)]\<rparr>]\<rparr>"
  by code_simp

lemma table_Z_value:
  "table_Z = \<lparr>global_depth = 0, bucket_size = 1, num_buckets = 1, dir = [0],
     heap = [\<lparr>b_size = 1, b_depth = 0, b_list = [(0, 10)]\<rparr>]\<rparr>"
  by code_simp

text \<open>
  In \<open>table_B\<close> bucket 2 has local depth 2 and is pointed to by slots 3 and 7, not by 5.
\<close>

theorem directory_aliasing_witness:
  "(\<exists>i < length (dir table_B). dir table_B ! i = 2) \<and>
   (dir table_B ! 7 = 2) =
     ((7::nat) AND (push_bit (GetDepth (heap table_B ! 2)) 1 - 1)
      = 3 AND (push_bit (GetDepth (heap table_B ! 2)) 1 - 1)) \<and>
   (dir table_B ! 5 = 2) =
     ((5::nat) AND (push_bit (GetDepth (heap table_B ! 2)) 1 - 1)
      = 3 AND (push_bit (GetDepth (heap table_B ! 2)) 1 - 1))"
proof -
  have a: "2 < length (heap table_B)" by (simp add: table_B_value)
  have i: "3 < length (dir table_B)" "7 < length (dir table_B)" "5 < length (dir table_B)"
    "dir table_B ! 3 = 2"
    by (simp_all add: table_B_value)
  from directory_aliasing[OF table_B_reachable a] i show ?thesis by blast
qed

text \<open>The depths of \<open>table_B\<close>.\<close>

theorem depth_discipline_witness:
  "GetDepth (heap table_B ! 1) \<le> GetGlobalDepth table_B \<and>
   GetLocalDepth table_B 6 \<le> GetGlobalDepth table_B \<and>
   length (dir table_B) = 2 ^ GetGlobalDepth table_B"
proof -
  have "1 < length (heap table_B)" "6 < length (dir table_B)" by (simp_all add: table_B_value)
  with depth_discipline[OF table_B_reachable] show ?thesis by blast
qed

text \<open>
  \<open>table_A\<close> holds keys 1 and 2 in its only bucket, which is full; key 1 is overwritten.
\<close>

theorem Insert_existing_key_overwrites_witness:
  "\<exists>t'. Insert (\<lambda>k. k) table_A 1 11 = Some t' \<and>
       Find (\<lambda>k. k) t' = (Find (\<lambda>k. k) table_A)(1 \<mapsto> 11) \<and>
       global_depth t' = global_depth table_A \<and> dir t' = dir table_A \<and>
       num_buckets t' = num_buckets table_A \<and> length (heap t') = length (heap table_A) \<and>
       (\<forall>a < length (heap table_A). GetDepth (heap t' ! a) = GetDepth (heap table_A ! a))"
proof -
  have "Find (\<lambda>k. k) table_A 1 = Some 10"
    by (simp add: table_A_value Find_map_of IndexOf_mod)
  with table_A_reachable show ?thesis by (rule Insert_existing_key_overwrites)
qed

text \<open>
  \<open>table_Z\<close> holds key 0 in a bucket of size one. Key 4 agrees with it on the low two
  bits only: the loop splits three times and returns.
\<close>

theorem Insert_returns_witness:
  "\<exists>t'. Insert (\<lambda>k. k) table_Z 4 40 = Some t' \<and> global_depth t' \<le> max (global_depth table_Z) 3"
proof -
  have "dom (Find (\<lambda>k. k) table_Z) = {0}"
    by (auto simp: table_Z_value Find_map_of IndexOf_mod split: if_splits)
  then have "colliding (\<lambda>k. k) table_Z 4 3 = {4}"
    by (auto simp: colliding_def)
  then have few: "card (colliding (\<lambda>k. k) table_Z 4 3) \<le> bucket_size table_Z"
    by (simp add: table_Z_value)
  have w: "(3::nat) \<le> 30" by simp
  show ?thesis by (rule Insert_returns[OF table_Z_reachable w few])
qed

lemma Insert_three_splits:
  "Insert (\<lambda>k. k) table_Z 4 40 =
     Some \<lparr>global_depth = 3, bucket_size = 1, num_buckets = 4, dir = [0, 1, 2, 1, 3, 1, 2, 1],
        heap = [\<lparr>b_size = 1, b_depth = 3, b_list = [(0, 10)]\<rparr>,
                \<lparr>b_size = 1, b_depth = 1, b_list = []\<rparr>,
                \<lparr>b_size = 1, b_depth = 2, b_list = []\<rparr>,
                \<lparr>b_size = 1, b_depth = 3, b_list = [(4, 40)]\<rparr>]\<rparr>"
  by code_simp

subsection \<open>Overflow of the mask\<close>

text \<open>
  When every pair of the refused bucket agrees with the new key on the low 30 bits of the
  hash, each split leaves them all in the bucket of the new key, which stays full; the
  depth grows until the mask of \<open>IndexOf\<close> overflows.
\<close>

lemma Split_target_list:
  assumes inv: "table_inv h t"
    and agree: "\<forall>p \<in> set (b_list (heap t ! (dir t ! IndexOf h t key))).
                  bit (h (fst p)) (b_depth (heap t ! (dir t ! IndexOf h t key)))
                  = bit (h key) (b_depth (heap t ! (dir t ! IndexOf h t key)))"
  shows "b_list (heap (Split h t (IndexOf h t key)) !
            (dir (Split h t (IndexOf h t key)) ! IndexOf h (Split h t (IndexOf h t key)) key))
         = b_list (heap t ! (dir t ! IndexOf h t key))"
    and "b_size (heap (Split h t (IndexOf h t key)) !
            (dir (Split h t (IndexOf h t key)) ! IndexOf h (Split h t (IndexOf h t key)) key))
         = b_size (heap t ! (dir t ! IndexOf h t key))"
proof -
  let ?x = "IndexOf h t key"
  let ?a = "dir t ! ?x"
  let ?d = "b_depth (heap t ! ?a)"
  let ?t1 = "if b_depth (heap t ! ?a) = global_depth t then double_directory t else t"
  have di: "dir_inv t" and ii: "items_inv h t" using inv by (simp_all add: table_inv_def)
  note D = dir_invD[OF di]
  have idx: "?x < length (dir t)" using D(1) by (rule IndexOf_less)
  note S = Split_eq[OF inv idx]
  have di1: "dir_inv ?t1" using S(2) by (simp add: table_inv_def)
  have hp: "heap ?t1 = heap t" and bs: "bucket_size ?t1 = bucket_size t"
    by (simp_all add: double_directory_def)
  have a: "?a < length (heap t)" using D(3)[OF idx] .
  have a1: "?a < length (heap ?t1)" using a by (simp add: hp)
  have k1: "dir ?t1 ! IndexOf h ?t1 key = ?a" using double_IndexOf[OF D(1)] by simp
  have idx1: "IndexOf h ?t1 key < length (dir ?t1)" using dir_invD(1)[OF di1] by (rule IndexOf_less)
  have dlt: "?d < global_depth ?t1" using S(3) by (simp add: hp)
  have bitk: "bit (IndexOf h ?t1 key) ?d = bit (h key) ?d"
    using dlt by (simp add: IndexOf_mod bit_mod_pow)
  have all: "filter (\<lambda>p. bit (h (fst p)) ?d) (b_list (heap t ! ?a)) = b_list (heap t ! ?a)"
    if "bit (h key) ?d"
    using agree that by (intro filter_True) simp
  have none: "filter (\<lambda>p. \<not> bit (h (fst p)) ?d) (b_list (heap t ! ?a)) = b_list (heap t ! ?a)"
    if "\<not> bit (h key) ?d"
    using agree that by (intro filter_True) simp
  have tgt: "dir (split_at h ?t1 ?a) ! IndexOf h (split_at h ?t1 ?a) key
      = (if bit (h key) ?d then length (heap t) else ?a)"
    using k1 bitk by (simp add: split_at_dir[OF idx1] hp)
  note H = split_at_heap(2,3)[OF a1, where h = h]
  show "b_list (heap (Split h t ?x) ! (dir (Split h t ?x) ! IndexOf h (Split h t ?x) key))
         = b_list (heap t ! ?a)"
    unfolding S(1) tgt using H all none by (simp add: hp)
  show "b_size (heap (Split h t ?x) ! (dir (Split h t ?x) ! IndexOf h (Split h t ?x) key))
         = b_size (heap t ! ?a)"
    unfolding S(1) tgt using H items_invD(3)[OF ii a] by (simp add: hp bs)
qed

lemma Bucket_Insert_refused_iff:
  "fst (Bucket_Insert b key val) = fst (Bucket_Insert b' key val')"
  if "b_list b = b_list b'" "b_size b = b_size b'"
  using that by (simp add: Bucket_Insert_accepts IsFull_def)

lemma Insert_overflows:
  assumes "table_inv h t"
    and "\<not> fst (Bucket_Insert (heap t ! (dir t ! IndexOf h t key)) key val)"
    and "\<forall>p \<in> set (b_list (heap t ! (dir t ! IndexOf h t key))). h (fst p) mod 2 ^ 30 = h key mod 2 ^ 30"
  shows "Insert h t key val = None"
  using assms
proof (induction "31 - b_depth (heap t ! (dir t ! IndexOf h t key))" arbitrary: t rule: less_induct)
  case less
  let ?x = "IndexOf h t key"
  let ?a = "dir t ! ?x"
  let ?d = "b_depth (heap t ! ?a)"
  let ?t2 = "Split h t ?x"
  show ?case
  proof (cases "31 \<le> global_depth t")
    case True
    then show ?thesis by (subst Insert_step) simp
  next
    case False
    have di: "dir_inv t" using less.prems(1) by (simp add: table_inv_def)
    have idx: "?x < length (dir t)" using dir_invD(1)[OF di] by (rule IndexOf_less)
    have d: "?d \<le> global_depth t" using dir_invD(5)[OF di dir_invD(3)[OF di idx]] .
    have step: "Insert h t key val = Insert h ?t2 key val"
      using False less.prems(2) by (subst Insert_step) simp
    note T = Split_target_depth[OF less.prems(1), of key]
    note S = Split_inv[OF less.prems(1) idx]
    show ?thesis
    proof (cases "?d = 30")
      case True
      then have "31 \<le> global_depth ?t2" using T(3) by simp
      then have "Insert h ?t2 key val = None" by (subst Insert_step) simp
      then show ?thesis using step by simp
    next
      case ne: False
      then have dlt: "?d < 30" using d False by simp
      have agree: "\<forall>p \<in> set (b_list (heap t ! ?a)). bit (h (fst p)) ?d = bit (h key) ?d"
      proof
        fix p assume "p \<in> set (b_list (heap t ! ?a))"
        then have "h (fst p) mod 2 ^ 30 = h key mod 2 ^ 30" using less.prems(3) by blast
        then have "bit (h (fst p) mod 2 ^ 30) ?d = bit (h key mod 2 ^ 30) ?d" by simp
        then show "bit (h (fst p)) ?d = bit (h key) ?d" by (simp only: bit_mod_pow[OF dlt])
      qed
      note L = Split_target_list[OF less.prems(1) agree]
      have refused2: "\<not> fst (Bucket_Insert (heap ?t2 ! (dir ?t2 ! IndexOf h ?t2 key)) key val)"
        using less.prems(2) Bucket_Insert_refused_iff[OF L, of key val val] by simp
      have agree2: "\<forall>p \<in> set (b_list (heap ?t2 ! (dir ?t2 ! IndexOf h ?t2 key))).
          h (fst p) mod 2 ^ 30 = h key mod 2 ^ 30"
        using less.prems(3) by (simp add: L(1))
      have "31 - b_depth (heap ?t2 ! (dir ?t2 ! IndexOf h ?t2 key)) < 31 - ?d"
        using dlt T(1) by simp
      then have "Insert h ?t2 key val = None"
        using S(1) refused2 agree2 by (rule less.hyps)
      then show ?thesis using step by simp
    qed
  qed
qed

text \<open>
  Claim C6 as stated, with the whole width of the hash: \<open>table_Z\<close> holds key 0 in a
  bucket of size one, and the hashes of 0 and \<open>2 ^ 31\<close> differ (in bit 31 of the 64), so
  no two keys agree on every bit. Yet \<open>Insert\<close> of \<open>2 ^ 31\<close> has no result: 31 splits
  leave both keys in one bucket, and the next index needs \<open>(1 << 31) - 1\<close> in \<open>int\<close>.
\<close>

theorem Insert_int_overflow:
  "table_reachable (\<lambda>k. k) table_Z \<and>
   card (colliding (\<lambda>k. k) table_Z (2 ^ 31) 64) \<le> bucket_size table_Z \<and>
   Insert (\<lambda>k. k) table_Z (2 ^ 31) 40 = None"
proof -
  have "dom (Find (\<lambda>k. k) table_Z) = {0}"
    by (auto simp: table_Z_value Find_map_of IndexOf_mod split: if_splits)
  then have "colliding (\<lambda>k. k) table_Z (2 ^ 31) 64 = {2 ^ 31}"
    by (auto simp: colliding_def)
  then have few: "card (colliding (\<lambda>k. k) table_Z (2 ^ 31) 64) \<le> bucket_size table_Z"
    by (simp add: table_Z_value)
  have "Insert (\<lambda>k. k) table_Z (2 ^ 31) 40 = None"
  proof (rule Insert_overflows)
    show "table_inv (\<lambda>k. k) table_Z" using table_Z_reachable by (rule reachable_inv)
    show "\<not> fst (Bucket_Insert (heap table_Z ! (dir table_Z ! IndexOf (\<lambda>k. k) table_Z (2 ^ 31))) (2 ^ 31) 40)"
      by (simp add: table_Z_value IndexOf_mod Bucket_Insert_accepts IsFull_def)
    show "\<forall>p \<in> set (b_list (heap table_Z ! (dir table_Z ! IndexOf (\<lambda>k. k) table_Z (2 ^ 31)))).
        fst p mod 2 ^ 30 = 2 ^ 31 mod 2 ^ 30"
      by (simp add: table_Z_value IndexOf_mod)
  qed
  with table_Z_reachable few show ?thesis by blast
qed

subsection \<open>The other int of the table\<close>

text \<open>
  The bucket count, an \<open>int\<close> of the source, is at most the length of the directory.
\<close>

lemma bucket_count_bound:
  assumes "table_reachable h t"
  shows "num_buckets t \<le> 2 ^ global_depth t"
proof -
  have "dir_inv t" using reachable_inv[OF assms] by (simp add: table_inv_def)
  note D = dir_invD[OF this]
  have "{..<length (heap t)} \<subseteq> (\<lambda>i. dir t ! i) ` {..<length (dir t)}"
    using D(4) by (auto simp: image_iff)
  then have "card {..<length (heap t)} \<le> card ((\<lambda>i. dir t ! i) ` {..<length (dir t)})"
    by (intro card_mono) simp_all
  also have "\<dots> \<le> card {..<length (dir t)}" by (rule card_image_le) simp
  finally show ?thesis using D(1,2) by simp
qed

subsection \<open>The scenarios of the specification\<close>

text \<open>
  Scenario S1: two inserts fill the only bucket, the third doubles the directory and
  splits. Scenario S2: an overwrite in the full bucket splits nothing.
\<close>

lemma scenario_S1:
  "global_depth table_A = 0" "num_buckets table_A = 1"
  "after_Insert (\<lambda>k. k) 3 30 table_A =
     \<lparr>global_depth = 1, bucket_size = 2, num_buckets = 2, dir = [0, 1],
      heap = [\<lparr>b_size = 2, b_depth = 1, b_list = [(2, 20)]\<rparr>,
              \<lparr>b_size = 2, b_depth = 1, b_list = [(1, 10), (3, 30)]\<rparr>]\<rparr>"
  "map (Find (\<lambda>k. k) (after_Insert (\<lambda>k. k) 3 30 table_A)) [1, 2, 3, 99]
     = [Some 10, Some 20, Some 30, None]"
  by code_simp+

lemma scenario_S2:
  "GetNumBuckets (after_Insert (\<lambda>k. k) 1 11 table_A) = 1"
  "Find (\<lambda>k. k) (after_Insert (\<lambda>k. k) 1 11 table_A) 1 = Some 11"
  by code_simp+

subsection \<open>Sequences of calls: every call returns, and the table is a map\<close>

lemma Split_bucket_size: "bucket_size (Split h t i) = bucket_size t"
  by (simp add: Split_def split_items_def split_pointers_def double_directory_def Let_def
      split: prod.splits)

lemma Insert_bucket_size:
  assumes "Insert h t key val = Some t'"
  shows "bucket_size t' = bucket_size t"
proof (rule Insert.raw_induct[where P = "\<lambda>h t key val t'. bucket_size t' = bucket_size t", OF _ assms])
  fix Insert' :: "('a \<Rightarrow> nat) \<Rightarrow> ('a, 'b) ExtendibleHashTable \<Rightarrow> 'a \<Rightarrow> 'b \<Rightarrow> ('a, 'b) ExtendibleHashTable option"
  fix h t key val t'
  assume IH: "\<And>h t key val t'. Insert' h t key val = Some t' \<Longrightarrow> bucket_size t' = bucket_size t"
  assume body: "(if 31 \<le> global_depth t then None
      else let index = IndexOf h t key; target_bucket = dir t ! index
      in case Bucket_Insert (heap t ! target_bucket) key val of
         (accepted, b) \<Rightarrow>
           if accepted then Some (t\<lparr>heap := (heap t)[target_bucket := b]\<rparr>)
           else Insert' h (Split h t index) key val) = Some t'"
  let ?x = "IndexOf h t key"
  let ?a = "dir t ! ?x"
  have gd: "\<not> 31 \<le> global_depth t" using body by (auto split: if_splits)
  show "bucket_size t' = bucket_size t"
  proof (cases "fst (Bucket_Insert (heap t ! ?a) key val)")
    case True
    then have "t' = t\<lparr>heap := (heap t)[?a := snd (Bucket_Insert (heap t ! ?a) key val)]\<rparr>"
      using body gd by (simp add: Let_def split: prod.splits)
    then show ?thesis by simp
  next
    case False
    then have "Insert' h (Split h t ?x) key val = Some t'"
      using body gd by (simp add: Let_def split: prod.splits)
    then have "bucket_size t' = bucket_size (Split h t ?x)" by (rule IH)
    then show ?thesis by (simp add: Split_bucket_size)
  qed
qed

lemma Remove_fields:
  assumes "Remove h t key = (found, t')"
  shows "bucket_size t' = bucket_size t" and "global_depth t' = global_depth t"
  using assms by (auto simp: Remove_def Let_def split: prod.splits)

lemma latest_op_key: "latest done k \<noteq> None \<Longrightarrow> k \<in> op_key ` set done"
proof (induction "done")
  case Nil
  then show ?case by simp
next
  case (Cons op earlier)
  then show ?case by (cases op) (auto split: if_splits)
qed

lemma set_present_keys: "set (present_keys done) = dom (latest done)"
  using latest_op_key[of "done"] by (auto simp: present_keys_def dom_def)

lemma colliding_keys_bound:
  assumes "Find h t = latest done"
  shows "card (colliding h t key w) \<le> length (colliding_keys h done key w)"
proof -
  have "colliding h t key w = set (colliding_keys h done key w)"
    using assms by (auto simp: colliding_def colliding_keys_def set_present_keys)
  then show ?thesis by (simp add: card_length)
qed

text \<open>
  From any table that satisfies the invariant and agrees with the calls already made, a
  separable sequence runs to its end, and the table then agrees with all the calls.
\<close>

lemma run_ops_returns:
  "table_inv h t \<Longrightarrow> global_depth t \<le> 30 \<Longrightarrow> Find h t = latest done \<Longrightarrow> w \<le> 30 \<Longrightarrow>
   separable h (bucket_size t) w done ops \<Longrightarrow>
   \<exists>t' results. run_ops h t ops = Some (t', results) \<and>
      Find h t' = latest (rev ops @ done) \<and> results = remove_results done ops"
proof (induction ops arbitrary: t "done")
  case Nil
  then show ?case by simp
next
  case (Cons op ops)
  show ?case
  proof (cases op)
    case (Op_Insert k v)
    have sep: "length (colliding_keys h done k w) \<le> bucket_size t"
      "separable h (bucket_size t) w (Op_Insert k v # done) ops"
      using Cons.prems(5) by (simp_all add: Op_Insert)
    have "card (colliding h t k w) \<le> bucket_size t"
      using colliding_keys_bound[OF Cons.prems(3)] sep(1) by (rule order_trans)
    with Cons.prems(1) obtain t1 where t1: "Insert h t k v = Some t1"
      using Insert_returns_aux[OF _ _ Cons.prems(2) Cons.prems(4)] by blast
    note I = Insert_inv[OF Cons.prems(1) t1]
    have "Find h t1 = latest (Op_Insert k v # done)"
      using I(2) Cons.prems(3) by (simp add: latest_Insert)
    moreover have "separable h (bucket_size t1) w (Op_Insert k v # done) ops"
      using sep(2) by (simp add: Insert_bucket_size[OF t1])
    ultimately have "\<exists>t' results. run_ops h t1 ops = Some (t', results) \<and>
        Find h t' = latest (rev ops @ Op_Insert k v # done) \<and>
        results = remove_results (Op_Insert k v # done) ops"
      using I(1) I(3) Cons.prems(4) by (intro Cons.IH)
    then show ?thesis by (simp add: Op_Insert t1)
  next
    case (Op_Remove k)
    obtain found t1 where rm: "Remove h t k = (found, t1)" by (cases "Remove h t k")
    note R = Remove_inv[OF Cons.prems(1) rm]
    note F = Remove_fields[OF rm]
    have "Find h t1 = latest (Op_Remove k # done)"
      using R(2) Cons.prems(3) by (simp add: latest_Remove)
    moreover have "separable h (bucket_size t1) w (Op_Remove k # done) ops"
      using Cons.prems(5) by (simp add: Op_Remove F(1))
    moreover have "global_depth t1 \<le> 30" using Cons.prems(2) by (simp add: F(2))
    ultimately obtain t' rest where rest: "run_ops h t1 ops = Some (t', rest)"
        "Find h t' = latest (rev ops @ Op_Remove k # done)"
        "rest = remove_results (Op_Remove k # done) ops"
      using Cons.IH[OF R(1), of "Op_Remove k # done"] Cons.prems(4) by blast
    moreover have "found = (latest done k \<noteq> None)" using R(3) Cons.prems(3) by simp
    ultimately show ?thesis by (simp add: Op_Remove rm)
  qed
qed

text \<open>
  Claim C1 (map semantics), as amended: take a width \<open>w\<close> of at most 30 bits and a
  sequence of \<open>Insert\<close> and \<open>Remove\<close> calls such that, at each \<open>Insert\<close>, at most
  \<open>bucket_size_\<close> of the keys then present together with the new key have a hash that
  agrees with the new key's on all of the low \<open>w\<close> bits. Run on a new table, every call of
  the sequence returns; afterwards \<open>Find\<close> answers, for every key, what the most recent
  call on that key left (the value of its last \<open>Insert\<close>, or nothing after a \<open>Remove\<close> or
  when the key was never inserted), and each \<open>Remove\<close> returned true exactly when its key
  was present at that moment.
\<close>

theorem table_is_a_map:
  assumes "w \<le> 30" and "separable h n w [] ops"
  shows "\<exists>t results. run_ops h (ExtendibleHashTable_new n) ops = Some (t, results) \<and>
      (\<forall>key. Find h t key = latest (rev ops) key) \<and> results = remove_results [] ops"
proof -
  have "Find h (ExtendibleHashTable_new n) = latest []"
    by (rule ext) (simp add: Find_new)
  moreover have "global_depth (ExtendibleHashTable_new n :: ('a, 'b) ExtendibleHashTable) \<le> 30"
    and "bucket_size (ExtendibleHashTable_new n :: ('a, 'b) ExtendibleHashTable) = n"
    by (simp_all add: ExtendibleHashTable_new_def)
  ultimately have "\<exists>t results. run_ops h (ExtendibleHashTable_new n) ops = Some (t, results) \<and>
      Find h t = latest (rev ops @ []) \<and> results = remove_results [] ops"
    using table_inv_new assms by (intro run_ops_returns) simp_all
  then show ?thesis by auto
qed

text \<open>
  Six calls on a table with buckets of size two: three inserts (the third splits), a
  remove of a present key, an overwrite, a remove of an absent key. The sequence is
  separable at width 1: keys 1 and 3 are odd, key 2 is even.
\<close>

theorem table_is_a_map_witness:
  "(1::nat) \<le> 30 \<and>
   separable (\<lambda>k. k) 2 1 []
     [Op_Insert 1 10, Op_Insert 2 20, Op_Insert 3 30, Op_Remove 2,
      Op_Insert 1 (11::nat), Op_Remove (7::nat)] \<and>
   run_ops (\<lambda>k. k) (ExtendibleHashTable_new 2)
     [Op_Insert 1 10, Op_Insert 2 20, Op_Insert 3 30, Op_Remove 2,
      Op_Insert 1 (11::nat), Op_Remove (7::nat)]
   = Some (\<lparr>global_depth = 1, bucket_size = 2, num_buckets = 2, dir = [0, 1],
        heap = [\<lparr>b_size = 2, b_depth = 1, b_list = []\<rparr>,
                \<lparr>b_size = 2, b_depth = 1, b_list = [(1, 11), (3, 30)]\<rparr>]\<rparr>, [True, False]) \<and>
   (\<forall>key. Find (\<lambda>k. k)
       \<lparr>global_depth = 1, bucket_size = 2, num_buckets = 2, dir = [0, 1],
        heap = [\<lparr>b_size = 2, b_depth = 1, b_list = []\<rparr>,
                \<lparr>b_size = 2, b_depth = 1, b_list = [(1, 11), (3, 30)]\<rparr>]\<rparr> key
     = latest (rev [Op_Insert 1 10, Op_Insert 2 20, Op_Insert 3 30, Op_Remove 2,
                    Op_Insert 1 (11::nat), Op_Remove (7::nat)]) key) \<and>
   [True, False] = remove_results []
     [Op_Insert 1 10, Op_Insert 2 20, Op_Insert 3 30, Op_Remove 2, Op_Insert 1 (11::nat), Op_Remove (7::nat)]"
proof -
  let ?ops = "[Op_Insert 1 10, Op_Insert 2 20, Op_Insert 3 30, Op_Remove 2,
      Op_Insert 1 (11::nat), Op_Remove (7::nat)]"
  have w: "(1::nat) \<le> 30" by simp
  have sep: "separable (\<lambda>k. k) 2 1 [] ?ops" by code_simp
  have run: "run_ops (\<lambda>k. k) (ExtendibleHashTable_new 2) ?ops
    = Some (\<lparr>global_depth = 1, bucket_size = 2, num_buckets = 2, dir = [0, 1],
        heap = [\<lparr>b_size = 2, b_depth = 1, b_list = []\<rparr>,
                \<lparr>b_size = 2, b_depth = 1, b_list = [(1, 11), (3, 30)]\<rparr>]\<rparr>, [True, False])"
    by code_simp
  from table_is_a_map[OF w sep] run w sep show ?thesis by simp
qed

text \<open>
  Without the condition on the hashes a sequence need not run to its end: with buckets of
  size one, after the key with hash 0, the \<open>Insert\<close> of a key with hash \<open>2 ^ 31\<close> splits
  until the mask of \<open>IndexOf\<close> overflows.
\<close>

lemma Insert_table_Z_overflows: "Insert (\<lambda>k. k) table_Z (2 ^ 31) 40 = None"
proof (rule Insert_overflows)
  show "table_inv (\<lambda>k. k) table_Z" using table_Z_reachable by (rule reachable_inv)
  show "\<not> fst (Bucket_Insert (heap table_Z ! (dir table_Z ! IndexOf (\<lambda>k. k) table_Z (2 ^ 31))) (2 ^ 31) 40)"
    by (simp add: table_Z_value IndexOf_mod Bucket_Insert_accepts IsFull_def)
  show "\<forall>p \<in> set (b_list (heap table_Z ! (dir table_Z ! IndexOf (\<lambda>k. k) table_Z (2 ^ 31)))).
      fst p mod 2 ^ 30 = 2 ^ 31 mod 2 ^ 30"
    by (simp add: table_Z_value IndexOf_mod)
qed

text \<open>
  Claim C1 as stated, for every sequence, fails on these two calls: a map would hold 40
  at the key \<open>2 ^ 31\<close>, and the second \<open>Insert\<close> gives no table to ask.
\<close>

theorem run_ops_int_overflow:
  "latest (rev [Op_Insert (0::nat) (10::nat), Op_Insert (2 ^ 31) 40]) (2 ^ 31) = Some 40 \<and>
   run_ops (\<lambda>k. k) (ExtendibleHashTable_new 1) [Op_Insert (0::nat) (10::nat), Op_Insert (2 ^ 31) 40]
     = None"
proof -
  have first: "Insert (\<lambda>k. k) (ExtendibleHashTable_new 1) (0::nat) (10::nat) = Some table_Z"
    unfolding table_Z_value by code_simp
  have "run_ops (\<lambda>k. k) (ExtendibleHashTable_new 1)
      [Op_Insert (0::nat) (10::nat), Op_Insert (2 ^ 31) 40] = None"
    by (simp only: run_ops.simps first Insert_table_Z_overflows option.case)
  moreover have "latest (rev [Op_Insert (0::nat) (10::nat), Op_Insert (2 ^ 31) 40]) (2 ^ 31) = Some 40"
    by simp
  ultimately show ?thesis by (rule conjI[rotated])
qed

end
